theory Spec2Isabelle
  imports
    Main
    "HOL-Library.Sublist"
    "HOL-Library.Char_ord"
    "HOL-Library.List_Lexorder"
    "HOL-Library.Multiset"
    "HOL-Library.Word"
begin

section \<open>C strings and the library calls used on them\<close>

text \<open>
  A \<^verbatim>\<open>gchar *\<close> is modelled by the list of its characters before the terminating
  NUL.  A pointer into a string is the offset from its start.  Reading the character
  at the offset of the terminator gives NUL, as in C.
\<close>

definition cstr_at :: "string \<Rightarrow> nat \<Rightarrow> char" where
  "cstr_at s i = (if i < length s then s ! i else CHR 0x00)"

definition valid_cstring :: "string \<Rightarrow> bool" where
  "valid_cstring s = (CHR 0x00 \<notin> set s)"

text \<open>
  \<^verbatim>\<open>strchr (s, c)\<close>: offset of the first occurrence of \<open>c\<close>, \<open>None\<close> for the NULL
  result.  The source only searches for a space and for \<^verbatim>\<open>key[0]\<close> of a key of
  non-zero length, never for NUL.
\<close>

fun strchr :: "string \<Rightarrow> char \<Rightarrow> nat option" where
  "strchr [] c = None"
| "strchr (x # xs) c = (if x = c then Some 0 else map_option Suc (strchr xs c))"

text \<open>\<^verbatim>\<open>strstr (haystack, needle)\<close>: offset of the first occurrence of the needle.\<close>

fun strstr :: "string \<Rightarrow> string \<Rightarrow> nat option" where
  "strstr [] needle = (if needle = [] then Some 0 else None)"
| "strstr (x # xs) needle =
     (if prefix needle (x # xs) then Some 0 else map_option Suc (strstr xs needle))"

text \<open>\<^verbatim>\<open>tolower\<close> on the bytes of a UTF-8 string: only \<open>A\<close> to \<open>Z\<close> change.\<close>

definition tolower :: "char \<Rightarrow> char" where
  "tolower c =
     (if CHR ''A'' \<le> c \<and> c \<le> CHR ''Z'' then char_of (of_char c + (32::nat)) else c)"

text \<open>\<^verbatim>\<open>g_strstrip\<close>: removes leading and trailing white space (\<^verbatim>\<open>g_ascii_isspace\<close>).\<close>

definition g_ascii_isspace :: "char \<Rightarrow> bool" where
  "g_ascii_isspace c = (c \<in> set [CHR '' '', CHR 0x09, CHR 0x0A, CHR 0x0B, CHR 0x0C, CHR 0x0D])"

definition g_strstrip :: "string \<Rightarrow> string" where
  "g_strstrip s = rev (dropWhile g_ascii_isspace (rev (dropWhile g_ascii_isspace s)))"

text \<open>\<^verbatim>\<open>g_str_has_prefix\<close> and \<^verbatim>\<open>g_str_has_suffix\<close>.\<close>

definition g_str_has_prefix :: "string \<Rightarrow> string \<Rightarrow> bool" where
  "g_str_has_prefix s p = prefix p s"

definition g_str_has_suffix :: "string \<Rightarrow> string \<Rightarrow> bool" where
  "g_str_has_suffix s p = suffix p s"


section \<open>The action search dialog\<close>

subsection \<open>Actions\<close>

text \<open>
  A \<^verbatim>\<open>GtkAction\<close> as the dialog reads it: \<^verbatim>\<open>gtk_action_get_name\<close>,
  \<^verbatim>\<open>gtk_action_get_label\<close>, \<^verbatim>\<open>gtk_action_get_tooltip\<close> (which may be NULL) and
  \<^verbatim>\<open>gtk_action_get_sensitive\<close>.  Every action is taken to carry a label.
\<close>

record action =
  action_name :: string
  action_label :: string
  action_tooltip :: "string option"
  action_sensitive :: bool

subsection \<open>Matching a keyword\<close>

text \<open>
  \<^verbatim>\<open>action_fuzzy_match (string, key)\<close>: an empty key matches; otherwise the first
  occurrence of \<^verbatim>\<open>key[0]\<close> is looked up and the search goes on behind it with
  \<^verbatim>\<open>key + 1\<close>.
\<close>

fun action_fuzzy_match :: "string \<Rightarrow> string \<Rightarrow> bool" where
  "action_fuzzy_match string [] = True"
| "action_fuzzy_match string (k # key) =
     (case strchr string k of
        Some i \<Rightarrow> action_fuzzy_match (drop (Suc i) string) key
      | None \<Rightarrow> False)"

text \<open>
  \<^verbatim>\<open>action_search_match_keyword (action, keyword, &section)\<close>.  The result is
  \<open>None\<close> when the function returns FALSE (the section is then left untouched) and
  \<open>Some s\<close> when it returns TRUE having stored \<open>s\<close> in the section.  The keyword
  is \<open>None\<close> for a NULL pointer.  \<^verbatim>\<open>gimp_strip_uline\<close> belongs to libgimpbase and
  is a parameter.
\<close>

definition two_letter_match :: "string \<Rightarrow> string \<Rightarrow> bool" where
  "two_letter_match label key =
     (length key = 2 \<and>
      (case strchr label CHR '' '' of
         None \<Rightarrow> False
       | Some space_pos \<Rightarrow>
           cstr_at key 0 = cstr_at label 0 \<and> cstr_at key 1 = cstr_at label (Suc space_pos)))"

definition tooltip_match :: "action \<Rightarrow> string \<Rightarrow> bool" where
  "tooltip_match action key =
     (length key > 2 \<and>
      (case action_tooltip action of
         None \<Rightarrow> False
       | Some tooltip \<Rightarrow> strstr (map tolower tooltip) key \<noteq> None))"

definition action_search_match_keyword ::
  "(string \<Rightarrow> string) \<Rightarrow> action \<Rightarrow> string option \<Rightarrow> int option" where
  "action_search_match_keyword gimp_strip_uline action keyword =
     (case keyword of
        None \<Rightarrow> Some 0
      | Some kw \<Rightarrow>
          (let key = map tolower kw;
               label = map tolower (gimp_strip_uline (action_label action))
           in if two_letter_match label key then Some 1
              else (case strstr label key of
                      Some substr \<Rightarrow> Some (if substr = 0 then 1 else 2)
                    | None \<Rightarrow>
                        if tooltip_match action key then Some 3
                        else if action_fuzzy_match label key then Some 4
                        else None)))"

text \<open>
  The two-letter rule in the words of the specification: the keyword's first character
  equals the label's first character, and its second character equals the first
  character of the label's second word, that is the character right after the first
  space; both compared without regard to case.  There is no second word when nothing
  follows the first space.
\<close>

definition second_word_initial :: "string \<Rightarrow> char option" where
  "second_word_initial L =
     (case dropWhile (\<lambda>c. c \<noteq> CHR '' '') L of
        _ # w # _ \<Rightarrow> Some w
      | _ \<Rightarrow> None)"

definition initials_rule :: "string \<Rightarrow> string \<Rightarrow> bool" where
  "initials_rule L K =
     (case (L, K, second_word_initial L) of
        (l0 # _, [k0, k1], Some w) \<Rightarrow> tolower k0 = tolower l0 \<and> tolower k1 = tolower w
      | _ \<Rightarrow> False)"

subsection \<open>The results list\<close>

text \<open>
  A row of the list store behind \<^verbatim>\<open>results_list\<close>, with the columns
  \<^verbatim>\<open>RESULT_ACTION\<close>, \<^verbatim>\<open>IS_SENSITIVE\<close> and \<^verbatim>\<open>RESULT_SECTION\<close>.  The columns
  \<^verbatim>\<open>RESULT_ICON\<close> and \<^verbatim>\<open>RESULT_DATA\<close> hold the stock icon and the markup text
  that GTK renders; no operation of the dialog reads them back, and they are left out.
\<close>

record result_row =
  result_action :: action
  is_sensitive :: bool
  result_section :: int

datatype selection_mode =
  GTK_SELECTION_NONE | GTK_SELECTION_SINGLE | GTK_SELECTION_BROWSE | GTK_SELECTION_MULTIPLE

text \<open>
  The \<^verbatim>\<open>SearchDialog\<close> with what its functions read and change: the configuration
  flag \<^verbatim>\<open>search_show_unavailable\<close>, the rows of the list store, the tree selection
  (its mode and the index of the selected row), whether \<^verbatim>\<open>gtk_widget_destroy\<close> has
  been called on the dialog, and the names of the actions \<^verbatim>\<open>gtk_action_activate\<close>
  has been called on, oldest first.
\<close>

record search_dialog =
  search_show_unavailable :: bool
  results_list :: "result_row list"
  selection_mode :: selection_mode
  selected_row :: "nat option"
  dialog_destroyed :: bool
  activated :: "string list"

text \<open>
  The loop of \<^verbatim>\<open>action_search_add_to_results_list\<close> over the rows: the new row goes
  before the first row whose section is greater, and at the end when there is none.
\<close>

fun insert_by_section :: "result_row \<Rightarrow> result_row list \<Rightarrow> result_row list" where
  "insert_by_section row [] = [row]"
| "insert_by_section row (next_section # rest) =
     (if result_section next_section > result_section row then row # next_section # rest
      else next_section # insert_by_section row rest)"

text \<open>
  \<^verbatim>\<open>action_search_add_to_results_list (action, private, section)\<close>: nothing is
  added when the label, stripped of its underlines and of the white space around it, is
  empty (the test for a NULL label has no counterpart, every action carrying a label);
  otherwise the row is built and inserted.
\<close>

definition new_row :: "action \<Rightarrow> int \<Rightarrow> result_row" where
  "new_row action section =
     \<lparr>result_action = action, is_sensitive = action_sensitive action, result_section = section\<rparr>"

definition action_search_add_to_results_list ::
  "(string \<Rightarrow> string) \<Rightarrow> action \<Rightarrow> search_dialog \<Rightarrow> int \<Rightarrow> search_dialog" where
  "action_search_add_to_results_list gimp_strip_uline action private section =
     (let label = g_strstrip (gimp_strip_uline (action_label action))
      in if length label = 0 then private
         else private\<lparr>results_list :=
                insert_by_section (new_row action section) (results_list private)\<rparr>)"

subsection \<open>Running the selected action\<close>

definition action_search_finalizer :: "search_dialog \<Rightarrow> search_dialog" where
  "action_search_finalizer private = private\<lparr>dialog_destroyed := True\<rparr>"

definition gtk_action_activate :: "action \<Rightarrow> search_dialog \<Rightarrow> search_dialog" where
  "gtk_action_activate action private =
     private\<lparr>activated := activated private @ [action_name action]\<rparr>"

definition action_search_run_selected :: "search_dialog \<Rightarrow> search_dialog" where
  "action_search_run_selected private0 =
     (let private = private0\<lparr>selection_mode := GTK_SELECTION_SINGLE\<rparr>
      in case selected_row private of
           None \<Rightarrow> private
         | Some iter \<Rightarrow>
             if iter < length (results_list private) then
               (let action = result_action (results_list private ! iter)
                in if \<not> action_sensitive action then private
                   else action_search_finalizer (gtk_action_activate action private))
             else private)"

subsection \<open>Searching the history and the action groups\<close>

text \<open>
  Modelled from the spec: \<^verbatim>\<open>gimp_action_name_compare\<close> (widgets/gimpaction.c is not
  among the sources) is the canonical name comparator; with the stable \<^verbatim>\<open>g_list_sort\<close>
  the actions of a group come sorted by name.
\<close>

definition sort_by_name :: "action list \<Rightarrow> action list" where
  "sort_by_name actions = sort_key action_name actions"

text \<open>
  The inner loop of \<^verbatim>\<open>action_search_history_and_actions\<close> over the sorted actions of
  one group.  \<open>history_actions\<close> is the list \<^verbatim>\<open>gimp_action_history_search\<close>
  returned.
\<close>

fun search_group ::
  "(string \<Rightarrow> string) \<Rightarrow> string option \<Rightarrow> action list \<Rightarrow> action list \<Rightarrow>
   search_dialog \<Rightarrow> search_dialog" where
  "search_group gimp_strip_uline keyword history_actions [] private = private"
| "search_group gimp_strip_uline keyword history_actions (action # actions) private =
     (let name = action_name action
      in if g_str_has_suffix name ''-menu'' \<or> g_str_has_suffix name ''-popup'' \<or>
            g_str_has_prefix name ''context-'' \<or> g_str_has_prefix name ''plug-in-recent-''
         then search_group gimp_strip_uline keyword history_actions actions private
         else if \<not> action_sensitive action \<and> \<not> search_show_unavailable private
         then search_group gimp_strip_uline keyword history_actions actions private
         else (case action_search_match_keyword gimp_strip_uline action keyword of
                 None \<Rightarrow> search_group gimp_strip_uline keyword history_actions actions private
               | Some section \<Rightarrow>
                   (let is_redundant = list_ex (\<lambda>h. action_name h = name) history_actions
                    in if \<not> is_redundant
                       then search_group gimp_strip_uline keyword history_actions actions
                              (action_search_add_to_results_list gimp_strip_uline action
                                 private section)
                       else search_group gimp_strip_uline keyword history_actions actions
                              private)))"

text \<open>
  \<^verbatim>\<open>action_search_history_and_actions (keyword, private)\<close>.  The collaborators are
  parameters: \<^verbatim>\<open>gimp_strip_uline\<close>, \<^verbatim>\<open>gimp_action_history_search\<close> as the function
  from the keyword to the list it returns, and the action groups of the UI manager, each
  as the list of its actions.
\<close>

definition action_search_history_and_actions ::
  "(string \<Rightarrow> string) \<Rightarrow> (string option \<Rightarrow> action list) \<Rightarrow> action list list \<Rightarrow>
   string option \<Rightarrow> search_dialog \<Rightarrow> search_dialog" where
  "action_search_history_and_actions gimp_strip_uline gimp_action_history_search action_groups
     keyword private =
     (if keyword = Some [] then private
      else
        (let history_actions = gimp_action_history_search keyword;
             private1 = foldl (\<lambda>p action.
                 action_search_add_to_results_list gimp_strip_uline action p 0)
               private history_actions
         in foldl (\<lambda>p group.
                search_group gimp_strip_uline keyword history_actions (sort_by_name group) p)
              private1 action_groups))"

text \<open>A sequence of insertions: the actions with their sections, in the order of the calls.\<close>

definition add_all_to_results_list ::
  "(string \<Rightarrow> string) \<Rightarrow> (action \<times> int) list \<Rightarrow> search_dialog \<Rightarrow> search_dialog" where
  "add_all_to_results_list gimp_strip_uline insertions private =
     foldl (\<lambda>p (action, section).
        action_search_add_to_results_list gimp_strip_uline action p section)
       private insertions"

text \<open>The rows a sequence of insertions adds: one for each action whose label is not blank.\<close>

definition rows_added :: "(string \<Rightarrow> string) \<Rightarrow> (action \<times> int) list \<Rightarrow> result_row list" where
  "rows_added gimp_strip_uline insertions =
     map (\<lambda>(action, section). new_row action section)
       (filter (\<lambda>(action, section). g_strstrip (gimp_strip_uline (action_label action)) \<noteq> [])
          insertions)"

text \<open>The rows of the list that show the action of a given name.\<close>

definition rows_of :: "string \<Rightarrow> search_dialog \<Rightarrow> result_row list" where
  "rows_of name private =
     filter (\<lambda>row. action_name (result_action row) = name) (results_list private)"

text \<open>
  Modelled from the spec: \<^verbatim>\<open>gimp_action_history_search\<close> (widgets/gimpaction-history.c
  is not among the sources) returns the subset of the recent actions that match the
  keyword by the matcher, in the order of the history.
\<close>

definition gimp_action_history_search_spec ::
  "(string \<Rightarrow> string) \<Rightarrow> action list \<Rightarrow> string option \<Rightarrow> action list" where
  "gimp_action_history_search_spec gimp_strip_uline history keyword =
     filter (\<lambda>action. action_search_match_keyword gimp_strip_uline action keyword \<noteq> None)
       history"

text \<open>Example data: a dialog that has just been opened, and four actions.\<close>

definition empty_dialog :: search_dialog where
  "empty_dialog =
     \<lparr>search_show_unavailable = False, results_list = [],
      selection_mode = GTK_SELECTION_SINGLE, selected_row = None,
      dialog_destroyed = False, activated = []\<rparr>"

definition gaussian_blur :: action where
  "gaussian_blur =
     \<lparr>action_name = ''filters-gaussian-blur'', action_label = ''Gaussian Blur'',
      action_tooltip = None, action_sensitive = True\<rparr>"

definition feather_selection :: action where
  "feather_selection =
     \<lparr>action_name = ''select-feather'', action_label = ''Feather Selection'',
      action_tooltip = Some ''Blur the selection border'', action_sensitive = False\<rparr>"

definition motion_blur :: action where
  "motion_blur =
     \<lparr>action_name = ''filters-motion-blur'', action_label = ''Motion Blur'',
      action_tooltip = None, action_sensitive = True\<rparr>"

definition unlabelled_blur :: action where
  "unlabelled_blur =
     \<lparr>action_name = ''view-blur'', action_label = [],
      action_tooltip = Some ''Blur the image'', action_sensitive = True\<rparr>"

definition dialog_with_selection :: "action \<Rightarrow> search_dialog" where
  "dialog_with_selection action =
     empty_dialog\<lparr>search_show_unavailable := True,
       results_list := [new_row gaussian_blur 1, new_row action 2],
       selected_row := Some 1\<rparr>"


section \<open>The ISO 639 parser\<close>

subsection \<open>The language store and the process environment\<close>

text \<open>
  Modelled from the spec: \<^verbatim>\<open>gimp_language_store_add\<close> (gimplanguagestore.c is not
  among the sources) appends the pair of display name and code to the list-backed
  store.  The store is the list of the entries emitted so far.
\<close>

type_synonym language_store = "(string \<times> string) list"

definition gimp_language_store_add :: "language_store \<Rightarrow> string \<Rightarrow> string \<Rightarrow> language_store" where
  "gimp_language_store_add store label code = store @ [(label, code)]"

text \<open>
  What the parser touches outside its own structure: the environment variable
  \<^verbatim>\<open>LANGUAGE\<close> (\<open>None\<close> when unset), the locale of the process as
  \<^verbatim>\<open>setlocale (LC_ALL, NULL)\<close> names it, the number of \<^verbatim>\<open>g_setenv\<close> and
  \<^verbatim>\<open>g_unsetenv\<close> calls made on \<^verbatim>\<open>LANGUAGE\<close>, and the number of warnings logged.
\<close>

record process =
  env_LANGUAGE :: "string option"
  current_locale :: string
  LANGUAGE_writes :: nat
  warnings :: nat

text \<open>
  The C library is a parameter: the translation \<^verbatim>\<open>dgettext (domain, msgid)\<close> finds in
  the current environment, and the locale \<^verbatim>\<open>setlocale (LC_ALL, "")\<close> selects there.
\<close>

record libc =
  dgettext :: "process \<Rightarrow> string \<Rightarrow> string \<Rightarrow> string"
  setlocale_from_environment :: "process \<Rightarrow> string"

definition g_setenv_LANGUAGE :: "string \<Rightarrow> process \<Rightarrow> process" where
  "g_setenv_LANGUAGE v proc =
     proc\<lparr>env_LANGUAGE := Some v, LANGUAGE_writes := Suc (LANGUAGE_writes proc)\<rparr>"

definition g_unsetenv_LANGUAGE :: "process \<Rightarrow> process" where
  "g_unsetenv_LANGUAGE proc =
     proc\<lparr>env_LANGUAGE := None, LANGUAGE_writes := Suc (LANGUAGE_writes proc)\<rparr>"

definition setlocale_LC_ALL :: "libc \<Rightarrow> process \<Rightarrow> process" where
  "setlocale_LC_ALL C proc = proc\<lparr>current_locale := setlocale_from_environment C proc\<rparr>"

subsection \<open>Adding a language under its own name\<close>

text \<open>
  The block of \<^verbatim>\<open>gimp_language_store_self_l10n\<close> that translates \<open>lang\<close> with
  \<^verbatim>\<open>LANGUAGE\<close> changed for the time of the lookup.
\<close>

definition localize_in_itself :: "libc \<Rightarrow> string \<Rightarrow> string \<Rightarrow> process \<Rightarrow> string \<times> process" where
  "localize_in_itself C lang code proc =
     (let current_lang = env_LANGUAGE proc;
          temp_lang = (case current_lang of
                         Some cl \<Rightarrow> code @ '':'' @ cl @ '':'' @ current_locale proc
                       | None \<Rightarrow> code);
          proc1 = setlocale_LC_ALL C (g_setenv_LANGUAGE temp_lang proc);
          lang' = dgettext C proc1 ''iso_639'' lang;
          proc2 = (case current_lang of
                     Some cl \<Rightarrow> g_setenv_LANGUAGE cl proc1
                   | None \<Rightarrow> g_unsetenv_LANGUAGE proc1)
      in (lang', setlocale_LC_ALL C proc2))"

text \<open>
  \<^verbatim>\<open>gimp_language_store_self_l10n (store, lang, code)\<close>; \<open>None\<close> is a NULL pointer.
\<close>

definition gimp_language_store_self_l10n ::
  "libc \<Rightarrow> string option \<Rightarrow> string option \<Rightarrow> language_store \<times> process \<Rightarrow>
   language_store \<times> process" where
  "gimp_language_store_self_l10n C lang_arg code_arg sp =
     (case sp of (store, proc) \<Rightarrow>
      (case (lang_arg, code_arg) of
         (Some lang, Some code) \<Rightarrow>
           if lang \<noteq> [] \<and> code \<noteq> [] then
             (case (if code \<noteq> ''en'' then localize_in_itself C lang code proc
                    else (lang, proc)) of
                (lang', proc') \<Rightarrow>
                  (case strchr lang' CHR '';'' of
                     Some semicolon \<Rightarrow>
                       (gimp_language_store_add store (take semicolon lang') code, proc')
                   | None \<Rightarrow> (gimp_language_store_add store lang' code, proc')))
           else (store, proc)
       | _ \<Rightarrow> (store, proc)))"

subsection \<open>The parser\<close>

datatype IsoCodesParserState =
  ISO_CODES_START | ISO_CODES_IN_ENTRIES | ISO_CODES_IN_ENTRY | ISO_CODES_IN_UNKNOWN

text \<open>
  A \<^verbatim>\<open>gint\<close> is a word of 32 bits read as a two's complement number (\<open>sint\<close>):
  \<^verbatim>\<open>++\<close> and \<^verbatim>\<open>--\<close> wrap around, and the comparison with 0 is the signed one.
\<close>

type_synonym gint = "32 word"

text \<open>The structure \<^verbatim>\<open>IsoCodesParser\<close>.\<close>

record IsoCodesParser =
  state :: IsoCodesParserState
  last_known_state :: IsoCodesParserState
  unknown_depth :: gint
  store :: language_store

text \<open>The parser as \<^verbatim>\<open>gimp_language_store_parse_iso_codes\<close> sets it up: all zero.\<close>

definition new_parser :: "language_store \<Rightarrow> IsoCodesParser" where
  "new_parser s =
     \<lparr>state = ISO_CODES_START, last_known_state = ISO_CODES_START, unknown_depth = 0, store = s\<rparr>"

text \<open>
  The loop of \<^verbatim>\<open>iso_codes_parser_entry\<close> over the attributes, given as the list of
  the pairs of name and value, with the variables \<open>lang\<close> and \<open>code\<close>.
\<close>

definition entry_attribute ::
  "string \<Rightarrow> string \<Rightarrow> string option \<times> string option \<Rightarrow> string option \<times> string option" where
  "entry_attribute name val lc =
     (case lc of (lang, code) \<Rightarrow>
        if name = ''name'' then (Some val, code)
        else if name = ''iso_639_2B_code'' \<and> code = None then (lang, Some val)
        else if name = ''iso_639_2T_code'' \<and> code = None then (lang, Some val)
        else if name = ''iso_639_1_code'' then (lang, Some val)
        else (lang, code))"

primrec entry_attributes ::
  "(string \<times> string) list \<Rightarrow> string option \<times> string option \<Rightarrow> string option \<times> string option" where
  "entry_attributes [] lc = lc"
| "entry_attributes (attribute # rest) lc =
     entry_attributes rest (entry_attribute (fst attribute) (snd attribute) lc)"

definition entry_code :: "(string \<times> string) list \<Rightarrow> string option" where
  "entry_code attributes = snd (entry_attributes attributes (None, None))"

definition iso_codes_parser_entry ::
  "libc \<Rightarrow> (string \<times> string) list \<Rightarrow> IsoCodesParser \<times> process \<Rightarrow> IsoCodesParser \<times> process" where
  "iso_codes_parser_entry C attributes pp =
     (case pp of (parser, proc) \<Rightarrow>
      (case entry_attributes attributes (None, None) of (lang, code) \<Rightarrow>
       (case (if code = Some ''zh'' then
                gimp_language_store_self_l10n C (Some ''Chinese'') (Some ''zh_HK'')
                  (gimp_language_store_self_l10n C (Some ''Chinese'') (Some ''zh_TW'')
                     (gimp_language_store_self_l10n C (Some ''Chinese'') (Some ''zh_CN'')
                        (store parser, proc)))
              else gimp_language_store_self_l10n C lang code (store parser, proc)) of
          (store', proc') \<Rightarrow> (parser\<lparr>store := store'\<rparr>, proc'))))"

definition iso_codes_parser_start_unknown :: "IsoCodesParser \<Rightarrow> IsoCodesParser" where
  "iso_codes_parser_start_unknown parser =
     (let parser1 = (if unknown_depth parser = 0
                     then parser\<lparr>last_known_state := state parser\<rparr> else parser)
      in parser1\<lparr>state := ISO_CODES_IN_UNKNOWN, unknown_depth := unknown_depth parser1 + 1\<rparr>)"

datatype abort = Assertion_failed

definition iso_codes_parser_end_unknown :: "IsoCodesParser \<Rightarrow> abort + IsoCodesParser" where
  "iso_codes_parser_end_unknown parser =
     (if \<not> (0 <s unknown_depth parser \<and> state parser = ISO_CODES_IN_UNKNOWN)
      then Inl Assertion_failed
      else (let parser1 = parser\<lparr>unknown_depth := unknown_depth parser - 1\<rparr>
            in Inr (if unknown_depth parser1 = 0
                    then parser1\<lparr>state := last_known_state parser1\<rparr> else parser1)))"

text \<open>
  \<^verbatim>\<open>iso_codes_parser_start_element\<close>.  The cases of the switch fall through: a case
  that does not reach its \<^verbatim>\<open>break\<close> goes on with the next one.
\<close>

definition start_element_in_entry :: "IsoCodesParser \<times> process \<Rightarrow> IsoCodesParser \<times> process" where
  "start_element_in_entry pp = (case pp of (parser, proc) \<Rightarrow>
     (iso_codes_parser_start_unknown parser, proc))"

definition start_element_in_entries ::
  "libc \<Rightarrow> string \<Rightarrow> (string \<times> string) list \<Rightarrow> IsoCodesParser \<times> process \<Rightarrow>
   IsoCodesParser \<times> process" where
  "start_element_in_entries C element_name attributes pp = (case pp of (parser, proc) \<Rightarrow>
     if element_name = ''iso_639_entry''
     then iso_codes_parser_entry C attributes (parser\<lparr>state := ISO_CODES_IN_ENTRY\<rparr>, proc)
     else start_element_in_entry (parser, proc))"

definition iso_codes_parser_start_element ::
  "libc \<Rightarrow> string \<Rightarrow> (string \<times> string) list \<Rightarrow> IsoCodesParser \<times> process \<Rightarrow>
   IsoCodesParser \<times> process" where
  "iso_codes_parser_start_element C element_name attributes pp = (case pp of (parser, proc) \<Rightarrow>
     (case state parser of
        ISO_CODES_START \<Rightarrow>
          if element_name = ''iso_639_entries''
          then (parser\<lparr>state := ISO_CODES_IN_ENTRIES\<rparr>, proc)
          else start_element_in_entries C element_name attributes (parser, proc)
      | ISO_CODES_IN_ENTRIES \<Rightarrow> start_element_in_entries C element_name attributes (parser, proc)
      | ISO_CODES_IN_ENTRY \<Rightarrow> start_element_in_entry (parser, proc)
      | ISO_CODES_IN_UNKNOWN \<Rightarrow> start_element_in_entry (parser, proc)))"

definition iso_codes_parser_end_element ::
  "string \<Rightarrow> IsoCodesParser \<times> process \<Rightarrow> abort + IsoCodesParser \<times> process" where
  "iso_codes_parser_end_element element_name pp = (case pp of (parser, proc) \<Rightarrow>
     (case state parser of
        ISO_CODES_START \<Rightarrow> Inr (parser, proc\<lparr>warnings := Suc (warnings proc)\<rparr>)
      | ISO_CODES_IN_ENTRIES \<Rightarrow> Inr (parser\<lparr>state := ISO_CODES_START\<rparr>, proc)
      | ISO_CODES_IN_ENTRY \<Rightarrow> Inr (parser\<lparr>state := ISO_CODES_IN_ENTRIES\<rparr>, proc)
      | ISO_CODES_IN_UNKNOWN \<Rightarrow>
          (case iso_codes_parser_end_unknown parser of
             Inl a \<Rightarrow> Inl a
           | Inr parser' \<Rightarrow> Inr (parser', proc))))"

text \<open>
  The events the XML parser delivers to the two callbacks, and a run of the parser over
  a sequence of them, which ends at the first failed assertion.
\<close>

datatype xml_event =
  Start_element string "(string \<times> string) list"
| End_element string

fun deliver :: "libc \<Rightarrow> xml_event \<Rightarrow> IsoCodesParser \<times> process \<Rightarrow> abort + IsoCodesParser \<times> process" where
  "deliver C (Start_element element_name attributes) pp =
     Inr (iso_codes_parser_start_element C element_name attributes pp)"
| "deliver C (End_element element_name) pp = iso_codes_parser_end_element element_name pp"

fun parse_events ::
  "libc \<Rightarrow> xml_event list \<Rightarrow> IsoCodesParser \<times> process \<Rightarrow> abort + IsoCodesParser \<times> process" where
  "parse_events C [] pp = Inr pp"
| "parse_events C (ev # evs) pp =
     (case deliver C ev pp of Inl a \<Rightarrow> Inl a | Inr pp' \<Rightarrow> parse_events C evs pp')"

subsection \<open>Notions used to state the properties of the parser\<close>

text \<open>
  The choice of the code in the words of the specification: the attribute
  \<open>iso_639_2B_code\<close> when present, else \<open>iso_639_2T_code\<close> when present, else
  \<open>iso_639_1_code\<close>.
\<close>

definition priority_fallback_code :: "(string \<times> string) list \<Rightarrow> string option" where
  "priority_fallback_code attributes =
     (case map_of attributes ''iso_639_2B_code'' of
        Some v \<Rightarrow> Some v
      | None \<Rightarrow>
          (case map_of attributes ''iso_639_2T_code'' of
             Some v \<Rightarrow> Some v
           | None \<Rightarrow> map_of attributes ''iso_639_1_code''))"

text \<open>The values of the attributes of the given names, in document order.\<close>

definition attribute_values :: "string list \<Rightarrow> (string \<times> string) list \<Rightarrow> string list" where
  "attribute_values names attributes = map snd (filter (\<lambda>(n, v). n \<in> set names) attributes)"

text \<open>
  A start tag is unrecognized in a state when the switch of
  \<open>iso_codes_parser_start_element\<close> ends in \<open>iso_codes_parser_start_unknown\<close>.
\<close>

definition unrecognized :: "IsoCodesParserState \<Rightarrow> string \<Rightarrow> bool" where
  "unrecognized st element_name =
     (case st of
        ISO_CODES_START \<Rightarrow> element_name \<noteq> ''iso_639_entries'' \<and> element_name \<noteq> ''iso_639_entry''
      | ISO_CODES_IN_ENTRIES \<Rightarrow> element_name \<noteq> ''iso_639_entry''
      | ISO_CODES_IN_ENTRY \<Rightarrow> True
      | ISO_CODES_IN_UNKNOWN \<Rightarrow> True)"

text \<open>
  \<open>closes_open n evs\<close>: with \<open>n\<close> elements open, every end tag of \<open>evs\<close> closes
  an element that is open when it comes.  \<open>open_after n evs\<close> is the number of
  elements open after \<open>evs\<close>.
\<close>

fun closes_open :: "nat \<Rightarrow> xml_event list \<Rightarrow> bool" where
  "closes_open n [] = True"
| "closes_open n (Start_element e a # evs) = closes_open (Suc n) evs"
| "closes_open n (End_element e # evs) = (0 < n \<and> closes_open (n - 1) evs)"

fun open_after :: "nat \<Rightarrow> xml_event list \<Rightarrow> nat" where
  "open_after n [] = n"
| "open_after n (Start_element e a # evs) = open_after (Suc n) evs"
| "open_after n (End_element e # evs) = open_after (n - 1) evs"

text \<open>
  \<open>max_open n evs\<close>: the greatest number of elements open at any moment of
  \<open>evs\<close>, \<open>n\<close> being open at its start.
\<close>

fun max_open :: "nat \<Rightarrow> xml_event list \<Rightarrow> nat" where
  "max_open n [] = n"
| "max_open n (Start_element e a # evs) = max n (max_open (Suc n) evs)"
| "max_open n (End_element e # evs) = max n (max_open (n - 1) evs)"

text \<open>
  Example data: a C library whose catalogue translates one language name, a process
  that has no \<^verbatim>\<open>LANGUAGE\<close> set, and the attributes of the entry for Chinese.
\<close>

definition example_libc :: libc where
  "example_libc =
     \<lparr>dgettext = (\<lambda>proc domain msgid.
        if env_LANGUAGE proc = Some ''de'' \<and> msgid = ''German''
        then ''Deutsch;Hochdeutsch'' else msgid),
      setlocale_from_environment = (\<lambda>proc. ''en_US.UTF-8'')\<rparr>"

definition example_process :: process where
  "example_process =
     \<lparr>env_LANGUAGE = None, current_locale = ''C'', LANGUAGE_writes = 0, warnings = 0\<rparr>"

definition chinese_entry :: "(string \<times> string) list" where
  "chinese_entry =
     [(''iso_639_2B_code'', ''chi''), (''iso_639_2T_code'', ''zho''),
      (''iso_639_1_code'', ''zh''), (''name'', ''Chinese'')]"

text \<open>
  Invariants of the parser.  In a known state the counter is 0.  With \<open>n\<close>
  elements open, the counter counts no more than these, the state is the unknown one
  exactly when the counter is not 0, the saved state is a known one, and the height of
  the parser, the number of open elements it accounts for, is at least \<open>n\<close>.
\<close>

definition known_zero :: "IsoCodesParser \<Rightarrow> bool" where
  "known_zero q = (state q = ISO_CODES_IN_UNKNOWN \<or> unknown_depth q = 0)"

fun level :: "IsoCodesParserState \<Rightarrow> nat" where
  "level ISO_CODES_START = 0"
| "level ISO_CODES_IN_ENTRIES = 1"
| "level ISO_CODES_IN_ENTRY = 2"
| "level ISO_CODES_IN_UNKNOWN = 0"

definition height :: "IsoCodesParser \<Rightarrow> nat" where
  "height q =
     (if state q = ISO_CODES_IN_UNKNOWN
      then level (last_known_state q) + unat (unknown_depth q)
      else level (state q))"

definition parser_inv :: "nat \<Rightarrow> IsoCodesParser \<Rightarrow> bool" where
  "parser_inv n q =
     (unat (unknown_depth q) \<le> n \<and>
      (state q = ISO_CODES_IN_UNKNOWN \<longleftrightarrow> unknown_depth q \<noteq> 0) \<and>
      last_known_state q \<noteq> ISO_CODES_IN_UNKNOWN \<and>
      n \<le> height q)"

text \<open>
  Example data: the entry for German, the events up to its start tag and the parser
  and process they lead to, and an unrecognized child element with another inside.
\<close>

definition german_entry :: "(string \<times> string) list" where
  "german_entry = [(''iso_639_2B_code'', ''ger''), (''iso_639_1_code'', ''de''), (''name'', ''German'')]"

definition entry_opened :: "xml_event list" where
  "entry_opened = [Start_element ''iso_639_entries'' [], Start_element ''iso_639_entry'' german_entry]"

definition parser_in_entry :: IsoCodesParser where
  "parser_in_entry =
     \<lparr>state = ISO_CODES_IN_ENTRY, last_known_state = ISO_CODES_START, unknown_depth = 0,
      store = [(''Deutsch'', ''de'')]\<rparr>"

definition process_in_entry :: process where
  "process_in_entry =
     \<lparr>env_LANGUAGE = None, current_locale = ''en_US.UTF-8'', LANGUAGE_writes = 2, warnings = 0\<rparr>"

definition nested_unknown :: "xml_event list" where
  "nested_unknown = [Start_element ''b'' [], End_element ''b'']"

text \<open>
  An unrecognized element with 2147483647 elements nested in one another inside, all
  closed again; and a document of 2147483648 elements nested in one another, followed
  by the first end tag.
\<close>

definition deeply_nested :: "xml_event list" where
  "deeply_nested =
     replicate 2147483647 (Start_element ''b'' []) @ replicate 2147483647 (End_element ''b'')"

definition deep_document :: "xml_event list" where
  "deep_document =
     Start_element ''x'' [] # replicate 2147483647 (Start_element ''x'' []) @
     [End_element ''x'']"

definition whole_document :: "xml_event list" where
  "whole_document =
     entry_opened @ [Start_element ''note'' []] @ nested_unknown @
     [End_element ''note'', End_element ''iso_639_entry'', End_element ''iso_639_entries'']"


section \<open>Properties of the matcher\<close>

lemma action_fuzzy_match_Cons:
  "action_fuzzy_match (x # xs) (k # key) =
     (if x = k then action_fuzzy_match xs key else action_fuzzy_match xs (k # key))"
  by (cases "strchr xs k") simp_all

lemma action_fuzzy_match_Nil: "action_fuzzy_match [] key = (key = [])"
  by (cases key) simp_all

lemma action_fuzzy_match_subseq:
  "action_fuzzy_match L K \<longleftrightarrow> subseq K L"
proof (induction L arbitrary: K)
  case Nil
  show ?case by (cases K) (simp_all add: action_fuzzy_match_Nil)
next
  case (Cons x xs)
  show ?case
  proof (cases K)
    case Nil
    then show ?thesis by simp
  next
    case K: (Cons k key)
    show ?thesis
    proof (cases "x = k")
      case True
      then have "action_fuzzy_match (x # xs) K = action_fuzzy_match xs key"
        unfolding K by (simp add: action_fuzzy_match_Cons del: action_fuzzy_match.simps)
      also have "\<dots> = subseq key xs"
        by (rule Cons.IH)
      also have "\<dots> = subseq K (x # xs)"
        unfolding K using True by simp
      finally show ?thesis .
    next
      case False
      then have "action_fuzzy_match (x # xs) K = action_fuzzy_match xs K"
        unfolding K by (simp add: action_fuzzy_match_Cons del: action_fuzzy_match.simps)
      also have "\<dots> = subseq K xs"
        by (rule Cons.IH)
      also have "\<dots> = subseq K (x # xs)"
        unfolding K using False by (simp add: subseq_Cons2_neq)
      finally show ?thesis .
    qed
  qed
qed

text \<open>
  Claim C4.  For every label \<open>L\<close> and keyword \<open>K\<close>, the recursive greedy matcher
  \<open>action_fuzzy_match L K\<close> is true exactly when \<open>K\<close> is a subsequence of \<open>L\<close>:
  every character of \<open>K\<close> occurs in \<open>L\<close>, in the same relative order, not
  necessarily contiguously.  Taking the leftmost occurrence each time loses nothing.
\<close>

theorem action_fuzzy_match_iff_subseq:
  "action_fuzzy_match L K \<longleftrightarrow> subseq K L"
  by (rule action_fuzzy_match_subseq)

subsection \<open>The two-letter rule\<close>

lemma tolower_eq_NUL: "tolower c = CHR 0x00 \<longleftrightarrow> c = CHR 0x00"
  by (cases c) (auto simp add: tolower_def char_of_def less_eq_char_def)

lemma tolower_eq_space: "tolower c = CHR '' '' \<longleftrightarrow> c = CHR '' ''"
  by (cases c) (auto simp add: tolower_def char_of_def less_eq_char_def)

lemma strchr_map_tolower_space: "strchr (map tolower s) CHR '' '' = strchr s CHR '' ''"
  by (induction s) (simp_all add: tolower_eq_space)

lemma strchr_None_iff: "strchr s c = None \<longleftrightarrow> c \<notin> set s"
  by (induction s) auto

lemma second_word_initial_Nil: "second_word_initial [] = None"
  by (simp add: second_word_initial_def)

lemma second_word_initial_Cons:
  "second_word_initial (x # xs) =
     (if x = CHR '' '' then (case xs of [] \<Rightarrow> None | w # _ \<Rightarrow> Some w) else second_word_initial xs)"
  by (simp add: second_word_initial_def split: list.splits)

lemma strchr_second_word:
  "strchr s CHR '' '' = Some i \<Longrightarrow>
     cstr_at s (Suc i) = (case second_word_initial s of None \<Rightarrow> CHR 0x00 | Some w \<Rightarrow> w)"
proof (induction s arbitrary: i)
  case Nil
  then show ?case by simp
next
  case (Cons x xs)
  show ?case
  proof (cases "x = CHR '' ''")
    case True
    with Cons.prems have "i = 0" by simp
    with True show ?thesis
      by (simp add: second_word_initial_Cons cstr_at_def split: list.splits)
  next
    case False
    with Cons.prems obtain j where j: "strchr xs CHR '' '' = Some j" "i = Suc j"
      by auto
    from Cons.IH [OF j(1)] j(2) False show ?thesis
      by (auto simp add: second_word_initial_Cons cstr_at_def split: if_splits)
  qed
qed

lemma second_word_initial_no_space:
  "strchr s CHR '' '' = None \<Longrightarrow> second_word_initial s = None"
  by (induction s) (simp_all add: second_word_initial_Cons second_word_initial_Nil split: if_splits)

lemma second_word_initial_map_tolower:
  "second_word_initial (map tolower s) = map_option tolower (second_word_initial s)"
  by (induction s)
    (simp_all add: second_word_initial_Cons second_word_initial_Nil tolower_eq_space
      split: list.splits)

lemma two_letter_match_iff:
  assumes "valid_cstring K"
  shows "two_letter_match (map tolower L) (map tolower K) \<longleftrightarrow> initials_rule L K"
proof (cases "strchr L CHR '' ''")
  case None
  then show ?thesis
    by (simp add: two_letter_match_def initials_rule_def strchr_map_tolower_space
        second_word_initial_no_space split: list.splits)
next
  case (Some i)
  then obtain l0 ls where L: "L = l0 # ls"
    by (cases L) simp_all
  from Some have at: "cstr_at (map tolower L) (Suc i) =
      (case second_word_initial L of None \<Rightarrow> CHR 0x00 | Some w \<Rightarrow> tolower w)"
    using strchr_second_word [of "map tolower L" i]
    by (simp add: strchr_map_tolower_space second_word_initial_map_tolower split: option.splits)
  show ?thesis
  proof (cases "\<exists>k0 k1. K = [k0, k1]")
    case False
    then have "length K \<noteq> 2"
      by (metis length_0_conv length_Suc_conv numeral_2_eq_2)
    with False show ?thesis
      by (auto simp add: two_letter_match_def initials_rule_def split: list.splits option.splits)
  next
    case True
    then obtain k0 k1 where K: "K = [k0, k1]" by blast
    with assms have nonnul: "tolower k1 \<noteq> CHR 0x00"
      by (auto simp add: valid_cstring_def tolower_eq_NUL)
    from Some have sp: "strchr (map tolower L) CHR '' '' = Some i"
      by (simp add: strchr_map_tolower_space)
    have "two_letter_match (map tolower L) (map tolower K) \<longleftrightarrow>
        tolower k0 = tolower l0 \<and> tolower k1 = cstr_at (map tolower L) (Suc i)"
      unfolding two_letter_match_def sp by (simp add: K L cstr_at_def)
    also have "\<dots> \<longleftrightarrow>
        tolower k0 = tolower l0 \<and> (\<exists>w. second_word_initial L = Some w \<and> tolower k1 = tolower w)"
      unfolding at using nonnul by (auto split: option.splits)
    also have "\<dots> \<longleftrightarrow> initials_rule L K"
      by (simp add: initials_rule_def K L split: option.splits)
    finally show ?thesis .
  qed
qed

lemma strstr_imp_subseq: "strstr s k \<noteq> None \<Longrightarrow> subseq k s"
proof (induction s)
  case Nil
  then show ?case by (simp split: if_splits)
next
  case (Cons x xs)
  show ?case
  proof (cases "prefix k (x # xs)")
    case True
    then show ?thesis by (rule prefix_imp_subseq)
  next
    case False
    with Cons.prems have "strstr xs k \<noteq> None" by simp
    then have "subseq k xs" by (rule Cons.IH)
    then show ?thesis by (rule list_emb_Cons)
  qed
qed


lemma tooltip_match_short: "length key \<le> 2 \<Longrightarrow> \<not> tooltip_match a key"
  by (simp add: tooltip_match_def)

lemma match_keyword_two_letters:
  assumes "length K = 2" and "valid_cstring K"
  shows "action_search_match_keyword strip a (Some K) =
     (let key = map tolower K; label = map tolower (strip (action_label a))
      in if initials_rule (strip (action_label a)) K then Some 1
         else (case strstr label key of
                 Some substr \<Rightarrow> Some (if substr = 0 then 1 else 2)
               | None \<Rightarrow> if subseq key label then Some 4 else None))"
  using assms
  by (simp add: action_search_match_keyword_def Let_def two_letter_match_iff
      tooltip_match_short action_fuzzy_match_subseq)

text \<open>
  Claim C1, as amended.  For every action whose label \<open>L\<close> (underlines stripped)
  contains a space and every keyword \<open>K\<close> of two characters, the matcher matches
  exactly when the two-letter rule holds or \<open>K\<close> is, without regard to case, a
  subsequence of \<open>L\<close> (which covers the substring and the fuzzy rule the code falls
  through to); and whenever the two-letter rule holds the section is 1.
\<close>

theorem two_letter_keyword_match:
  assumes "length K = 2" and "valid_cstring K"
    and "CHR '' '' \<in> set (strip (action_label a))"
  shows "(action_search_match_keyword strip a (Some K) \<noteq> None \<longleftrightarrow>
            initials_rule (strip (action_label a)) K
            \<or> subseq (map tolower K) (map tolower (strip (action_label a))))
       \<and> (initials_rule (strip (action_label a)) K \<longrightarrow>
            action_search_match_keyword strip a (Some K) = Some 1)"
proof -
  let ?L = "strip (action_label a)"
  have sub: "subseq (map tolower K) (map tolower ?L)"
    if "strstr (map tolower ?L) (map tolower K) = Some i" for i
    using that strstr_imp_subseq [of "map tolower ?L" "map tolower K"] by simp
  show ?thesis
    unfolding match_keyword_two_letters [OF assms(1,2)] Let_def
    by (auto split: option.splits dest: sub)
qed

theorem two_letter_keyword_match_witness:
  "length ''gB'' = 2 \<and> valid_cstring ''gB'' \<and>
   CHR '' '' \<in> set (id (action_label gaussian_blur)) \<and>
   initials_rule (id (action_label gaussian_blur)) ''gB'' \<and>
   action_search_match_keyword id gaussian_blur (Some ''gB'') = Some 1"
proof -
  have h1: "length ''gB'' = 2" by simp
  have h2: "valid_cstring ''gB''" by (simp add: valid_cstring_def)
  have h3: "CHR '' '' \<in> set (id (action_label gaussian_blur))" by (simp add: gaussian_blur_def)
  have h4: "initials_rule (id (action_label gaussian_blur)) ''gB''" by code_simp
  from two_letter_keyword_match [where strip = id, OF h1 h2 h3] h4
  have "action_search_match_keyword id gaussian_blur (Some ''gB'') = Some 1" by blast
  with h1 h2 h3 h4 show ?thesis by blast
qed

text \<open>
  The claim as it was stated (a match only by the two-letter rule) fails: the keyword
  \<open>au\<close> matches the label \<open>Gaussian Blur\<close>, which has a second word, as a
  substring, in section 2, and the two-letter rule does not hold.
\<close>

theorem two_letter_keyword_match_counterexample:
  "length ''au'' = 2 \<and> CHR '' '' \<in> set (id (action_label gaussian_blur)) \<and>
   action_search_match_keyword id gaussian_blur (Some ''au'') = Some 2 \<and>
   \<not> initials_rule (id (action_label gaussian_blur)) ''au''"
  by code_simp


section \<open>Properties of the results list\<close>

lemma set_insert_by_section: "set (insert_by_section row rows) = insert row (set rows)"
  by (induction rows) auto

lemma sorted_insert_by_section:
  "sorted (map result_section rows) \<Longrightarrow> sorted (map result_section (insert_by_section row rows))"
  by (induction rows) (auto simp add: set_insert_by_section)

lemma filter_insert_by_section:
  "sorted (map result_section rows) \<Longrightarrow>
   filter (\<lambda>r. result_section r = k) (insert_by_section row rows) =
   filter (\<lambda>r. result_section r = k) rows @ (if result_section row = k then [row] else [])"
proof (induction rows)
  case Nil
  show ?case by simp
next
  case (Cons x xs)
  then have xs: "sorted (map result_section xs)"
    and le: "\<forall>y\<in>set xs. result_section x \<le> result_section y"
    by simp_all
  show ?case
  proof (cases "result_section x > result_section row")
    case True
    with le have "filter (\<lambda>r. result_section r = result_section row) (x # xs) = []"
      by (auto simp add: filter_empty_conv)
    with True show ?thesis by auto
  next
    case False
    with Cons.IH [OF xs] show ?thesis by simp
  qed
qed

lemma add_to_results_list_rows:
  "results_list (action_search_add_to_results_list strip a p s) =
     (if g_strstrip (strip (action_label a)) = [] then results_list p
      else insert_by_section (new_row a s) (results_list p))"
  by (simp add: action_search_add_to_results_list_def Let_def)

lemma add_all_Nil: "add_all_to_results_list strip [] p = p"
  by (simp add: add_all_to_results_list_def)

lemma add_all_Cons:
  "add_all_to_results_list strip ((a, s) # ins) p =
     add_all_to_results_list strip ins (action_search_add_to_results_list strip a p s)"
  by (simp add: add_all_to_results_list_def)

lemma rows_added_Cons:
  "rows_added strip ((a, s) # ins) =
     (if g_strstrip (strip (action_label a)) = [] then [] else [new_row a s]) @ rows_added strip ins"
  by (simp add: rows_added_def)

lemma add_all_sorted_stable:
  "sorted (map result_section (results_list p)) \<Longrightarrow>
     sorted (map result_section (results_list (add_all_to_results_list strip ins p))) \<and>
     (\<forall>k. filter (\<lambda>r. result_section r = k) (results_list (add_all_to_results_list strip ins p)) =
        filter (\<lambda>r. result_section r = k) (results_list p) @
        filter (\<lambda>r. result_section r = k) (rows_added strip ins))"
proof (induction ins arbitrary: p)
  case Nil
  then show ?case by (simp add: add_all_Nil rows_added_def)
next
  case (Cons x ins)
  obtain a s where x: "x = (a, s)" by (cases x)
  let ?p = "action_search_add_to_results_list strip a p s"
  have sorted: "sorted (map result_section (results_list ?p))"
    using Cons.prems by (simp add: add_to_results_list_rows sorted_insert_by_section)
  have step: "filter (\<lambda>r. result_section r = k) (results_list ?p) =
      filter (\<lambda>r. result_section r = k) (results_list p) @
      filter (\<lambda>r. result_section r = k)
        (if g_strstrip (strip (action_label a)) = [] then [] else [new_row a s])" for k
    using Cons.prems by (simp add: add_to_results_list_rows filter_insert_by_section)
  from Cons.IH [OF sorted] show ?case
    unfolding x add_all_Cons rows_added_Cons by (simp add: step)
qed


text \<open>
  Claim C5.  The results list stays sorted by section: when the rows are in ascending
  order of section, they are so again after any sequence of insertions by
  \<open>action_search_add_to_results_list\<close>; and the insertion is stable: for every
  section, the rows of that section are the ones there were, followed by the added ones
  in the order of their insertion.
\<close>

theorem results_list_sorted_stable:
  assumes "sorted (map result_section (results_list private))"
  shows "sorted (map result_section
           (results_list (add_all_to_results_list strip insertions private))) \<and>
         (\<forall>k. filter (\<lambda>r. result_section r = k)
                 (results_list (add_all_to_results_list strip insertions private)) =
               filter (\<lambda>r. result_section r = k) (results_list private) @
               filter (\<lambda>r. result_section r = k) (rows_added strip insertions))"
  using assms by (rule add_all_sorted_stable)

theorem results_list_sorted_stable_witness:
  "sorted (map result_section (results_list empty_dialog)) \<and>
   sorted (map result_section (results_list (add_all_to_results_list id
      [(gaussian_blur, 2), (feather_selection, 1), (motion_blur, 2)] empty_dialog))) \<and>
   filter (\<lambda>r. result_section r = 2) (results_list (add_all_to_results_list id
      [(gaussian_blur, 2), (feather_selection, 1), (motion_blur, 2)] empty_dialog)) =
     [new_row gaussian_blur 2, new_row motion_blur 2]"
proof -
  let ?ins = "[(gaussian_blur, 2), (feather_selection, 1), (motion_blur, 2)]"
  have h: "sorted (map result_section (results_list empty_dialog))"
    by (simp add: empty_dialog_def)
  have r: "filter (\<lambda>r. result_section r = 2) (results_list empty_dialog) @
      filter (\<lambda>r. result_section r = 2) (rows_added id ?ins) =
      [new_row gaussian_blur 2, new_row motion_blur 2]"
    by code_simp
  from results_list_sorted_stable [OF h, of id ?ins] r h show ?thesis
    by simp
qed

section \<open>Properties of the search\<close>

lemma mset_insert_by_section: "mset (insert_by_section row rows) = add_mset row (mset rows)"
  by (induction rows) auto

lemma mset_add_to_results_list:
  "mset (results_list (action_search_add_to_results_list strip a p s)) =
     mset (results_list p) +
     (if g_strstrip (strip (action_label a)) = [] then {#} else {#new_row a s#})"
  by (simp add: add_to_results_list_rows mset_insert_by_section)

lemma mset_rows_of_add:
  "mset (rows_of n (action_search_add_to_results_list strip a p s)) =
     mset (rows_of n p) +
     (if g_strstrip (strip (action_label a)) \<noteq> [] \<and> action_name a = n
      then {#new_row a s#} else {#})"
  unfolding rows_of_def mset_filter mset_add_to_results_list
  by (simp add: new_row_def)

lemma rows_of_search_group:
  "list_ex (\<lambda>h. action_name h = n) H \<Longrightarrow>
     mset (rows_of n (search_group strip kw H acts p)) = mset (rows_of n p)"
proof (induction acts arbitrary: p)
  case Nil
  show ?case by simp
next
  case (Cons a acts)
  have skip: "mset (rows_of n (action_search_add_to_results_list strip a p s)) = mset (rows_of n p)"
    if "\<not> list_ex (\<lambda>h. action_name h = action_name a) H" for s
    using that Cons.prems by (auto simp add: mset_rows_of_add)
  show ?case
    by (simp add: Let_def Cons.IH [OF Cons.prems] skip split: option.splits)
qed

lemma rows_of_search_groups:
  "list_ex (\<lambda>h. action_name h = n) H \<Longrightarrow>
     mset (rows_of n (foldl (\<lambda>p group. search_group strip kw H (sort_by_name group) p) p groups))
       = mset (rows_of n p)"
  by (induction groups arbitrary: p) (simp_all add: rows_of_search_group)

lemma rows_of_history:
  "mset (rows_of n (foldl (\<lambda>p a. action_search_add_to_results_list strip a p 0) p H)) =
     mset (rows_of n p) +
     mset (map (\<lambda>a. new_row a 0)
       (filter (\<lambda>a. g_strstrip (strip (action_label a)) \<noteq> [] \<and> action_name a = n) H))"
  by (induction H arbitrary: p) (simp_all add: mset_rows_of_add)

lemma history_action_one_row:
  assumes "keyword \<noteq> Some []"
    and "filter (\<lambda>h. action_name h = action_name a) (history keyword) = [a]"
    and "g_strstrip (strip (action_label a)) \<noteq> []"
    and "results_list private = []"
  shows "rows_of (action_name a)
           (action_search_history_and_actions strip history groups keyword private) =
         [new_row a 0]"
proof -
  let ?H = "history keyword"
  let ?n = "action_name a"
  have "a \<in> set (filter (\<lambda>h. action_name h = ?n) ?H)"
    unfolding assms(2) by simp
  then have "a \<in> set ?H"
    by simp
  then have ex: "list_ex (\<lambda>h. action_name h = ?n) ?H"
    by (auto simp add: list_ex_iff)
  have "filter (\<lambda>h. g_strstrip (strip (action_label h)) \<noteq> [] \<and> action_name h = ?n) ?H =
      filter (\<lambda>h. g_strstrip (strip (action_label h)) \<noteq> []) (filter (\<lambda>h. action_name h = ?n) ?H)"
    by (simp add: conj_commute)
  also have "\<dots> = [a]"
    using assms(2,3) by simp
  finally have H: "filter (\<lambda>h. g_strstrip (strip (action_label h)) \<noteq> [] \<and> action_name h = ?n) ?H = [a]" .
  have "mset (rows_of ?n (action_search_history_and_actions strip history groups keyword private))
      = {#new_row a 0#}"
    using assms(1,4)
    by (simp add: action_search_history_and_actions_def Let_def rows_of_search_groups [OF ex]
        rows_of_history H) (simp add: rows_of_def)
  then show ?thesis
    by (simp add: mset_single_iff_right)
qed


text \<open>
  Claim C6, as amended.  For every keyword other than the empty string and every action
  whose label is not blank and whose name occurs exactly once in the history results,
  the search, run on the cleared list, leaves exactly one row for that name, whether or
  not the catalog scan finds the action too; that row is the action's, in section 0.
\<close>

theorem history_action_single_row:
  assumes "keyword \<noteq> Some []"
    and "filter (\<lambda>h. action_name h = action_name a) (history keyword) = [a]"
    and "g_strstrip (strip (action_label a)) \<noteq> []"
    and "results_list private = []"
  shows "rows_of (action_name a)
           (action_search_history_and_actions strip history groups keyword private) =
         [new_row a 0]"
  using assms by (rule history_action_one_row)

theorem history_action_single_row_witness:
  "Some ''blur'' \<noteq> Some [] \<and>
   filter (\<lambda>h. action_name h = action_name gaussian_blur)
     (gimp_action_history_search_spec id [motion_blur, gaussian_blur] (Some ''blur'')) =
     [gaussian_blur] \<and>
   g_strstrip (id (action_label gaussian_blur)) \<noteq> [] \<and>
   results_list empty_dialog = [] \<and>
   action_search_match_keyword id gaussian_blur (Some ''blur'') = Some 2 \<and>
   rows_of (action_name gaussian_blur)
     (action_search_history_and_actions id
        (gimp_action_history_search_spec id [motion_blur, gaussian_blur])
        [[gaussian_blur, feather_selection], [motion_blur]] (Some ''blur'') empty_dialog) =
     [new_row gaussian_blur 0]"
proof -
  have h1: "Some ''blur'' \<noteq> Some []" by simp
  have h2: "filter (\<lambda>h. action_name h = action_name gaussian_blur)
     (gimp_action_history_search_spec id [motion_blur, gaussian_blur] (Some ''blur'')) =
     [gaussian_blur]" by code_simp
  have h3: "g_strstrip (id (action_label gaussian_blur)) \<noteq> []" by code_simp
  have h4: "results_list empty_dialog = []" by (simp add: empty_dialog_def)
  have m: "action_search_match_keyword id gaussian_blur (Some ''blur'') = Some 2" by code_simp
  from history_action_single_row [where history = "gimp_action_history_search_spec id
      [motion_blur, gaussian_blur]" and strip = id, OF h1 h2 h3 h4] h1 h2 h3 h4 m
  show ?thesis by blast
qed

text \<open>
  The claim as it was stated fails for an action whose label is blank: it matches the
  keyword \<open>blur\<close> by its tooltip, it is in the history results and in the catalog,
  and the results list has no row for it, since \<open>action_search_add_to_results_list\<close>
  returns early on a blank label.
\<close>

theorem history_action_single_row_counterexample:
  "action_search_match_keyword id unlabelled_blur (Some ''blur'') = Some 3 \<and>
   unlabelled_blur \<in> set (gimp_action_history_search_spec id [unlabelled_blur] (Some ''blur'')) \<and>
   unlabelled_blur \<in> set (concat [[unlabelled_blur]]) \<and>
   rows_of (action_name unlabelled_blur)
     (action_search_history_and_actions id (gimp_action_history_search_spec id [unlabelled_blur])
        [[unlabelled_blur]] (Some ''blur'') empty_dialog) = []"
  by code_simp

section \<open>Properties of running the selection\<close>

lemma run_selected_cases:
  "action_search_run_selected p =
     (case selected_row p of
        None \<Rightarrow> p\<lparr>selection_mode := GTK_SELECTION_SINGLE\<rparr>
      | Some i \<Rightarrow>
          if i < length (results_list p) \<and> action_sensitive (result_action (results_list p ! i))
          then p\<lparr>selection_mode := GTK_SELECTION_SINGLE,
                 activated := activated p @ [action_name (result_action (results_list p ! i))],
                 dialog_destroyed := True\<rparr>
          else p\<lparr>selection_mode := GTK_SELECTION_SINGLE\<rparr>)"
  by (simp add: action_search_run_selected_def action_search_finalizer_def
      gtk_action_activate_def Let_def split: option.splits)

text \<open>
  Claim C7.  Confirming a selection whose action is not sensitive does nothing:
  \<open>action_search_run_selected\<close> neither activates the action nor destroys the dialog,
  and leaves the dialog as it was (the selection mode, set to the single mode the dialog
  always has, apart).  The action is activated, and the dialog then destroyed, only when
  a row is selected and its action is sensitive.
\<close>

theorem run_selected_disabled_noop:
  "(selected_row p = Some i \<and> i < length (results_list p) \<and>
      \<not> action_sensitive (result_action (results_list p ! i)) \<longrightarrow>
      action_search_run_selected p = p\<lparr>selection_mode := GTK_SELECTION_SINGLE\<rparr> \<and>
      activated (action_search_run_selected p) = activated p \<and>
      dialog_destroyed (action_search_run_selected p) = dialog_destroyed p) \<and>
   (activated (action_search_run_selected p) \<noteq> activated p \<or>
      dialog_destroyed (action_search_run_selected p) \<noteq> dialog_destroyed p \<longrightarrow>
      (\<exists>j. selected_row p = Some j \<and> j < length (results_list p) \<and>
         action_sensitive (result_action (results_list p ! j)) \<and>
         action_search_run_selected p =
           p\<lparr>selection_mode := GTK_SELECTION_SINGLE,
              activated := activated p @ [action_name (result_action (results_list p ! j))],
              dialog_destroyed := True\<rparr>))"
  unfolding run_selected_cases by (auto split: option.splits)

theorem run_selected_disabled_noop_witness:
  "selected_row (dialog_with_selection feather_selection) = Some 1 \<and>
   1 < length (results_list (dialog_with_selection feather_selection)) \<and>
   \<not> action_sensitive (result_action (results_list (dialog_with_selection feather_selection) ! 1)) \<and>
   action_search_run_selected (dialog_with_selection feather_selection) =
     dialog_with_selection feather_selection \<and>
   activated (action_search_run_selected (dialog_with_selection motion_blur)) \<noteq>
     activated (dialog_with_selection motion_blur) \<and>
   action_sensitive (result_action (results_list (dialog_with_selection motion_blur) ! 1)) \<and>
   dialog_destroyed (action_search_run_selected (dialog_with_selection motion_blur))"
proof -
  let ?d = "dialog_with_selection feather_selection"
  let ?e = "dialog_with_selection motion_blur"
  have h1: "selected_row ?d = Some 1"
    by (simp add: dialog_with_selection_def)
  have h2: "1 < length (results_list ?d)"
    by (simp add: dialog_with_selection_def)
  have h3: "\<not> action_sensitive (result_action (results_list ?d ! 1))"
    by (simp add: dialog_with_selection_def new_row_def feather_selection_def)
  have m: "?d\<lparr>selection_mode := GTK_SELECTION_SINGLE\<rparr> = ?d"
    by (simp add: dialog_with_selection_def empty_dialog_def)
  have h4: "activated (action_search_run_selected ?e) \<noteq> activated ?e"
    by code_simp
  have s: "selected_row ?e = Some 1"
    by (simp add: dialog_with_selection_def)
  have "action_search_run_selected ?d = ?d\<lparr>selection_mode := GTK_SELECTION_SINGLE\<rparr>"
    using run_selected_disabled_noop [of ?d 1] h1 h2 h3 by blast
  then have c1: "action_search_run_selected ?d = ?d"
    by (simp only: m)
  have "activated (action_search_run_selected ?e) \<noteq> activated ?e \<or>
      dialog_destroyed (action_search_run_selected ?e) \<noteq> dialog_destroyed ?e \<longrightarrow>
      (\<exists>j. selected_row ?e = Some j \<and> j < length (results_list ?e) \<and>
         action_sensitive (result_action (results_list ?e ! j)) \<and>
         action_search_run_selected ?e =
           ?e\<lparr>selection_mode := GTK_SELECTION_SINGLE,
              activated := activated ?e @ [action_name (result_action (results_list ?e ! j))],
              dialog_destroyed := True\<rparr>)"
    using run_selected_disabled_noop [of ?e 1] by (rule conjunct2)
  with h4 obtain j where j: "selected_row ?e = Some j"
    and js: "action_sensitive (result_action (results_list ?e ! j))"
    and jr: "action_search_run_selected ?e =
           ?e\<lparr>selection_mode := GTK_SELECTION_SINGLE,
              activated := activated ?e @ [action_name (result_action (results_list ?e ! j))],
              dialog_destroyed := True\<rparr>"
    by blast
  from j s have "j = 1" by simp
  with js have c2a: "action_sensitive (result_action (results_list ?e ! 1))" by simp
  have c2b: "dialog_destroyed (action_search_run_selected ?e)"
    unfolding jr by simp
  note c2 = conjI [OF c2a c2b]
  from h1 h2 h3 h4 c1 c2 show ?thesis
    by blast
qed

section \<open>Properties of the parser: the code of an entry\<close>

lemma attribute_values_Nil: "attribute_values names [] = []"
  by (simp add: attribute_values_def)

lemma attribute_values_Cons:
  "attribute_values names (nv # attrs) =
     (if fst nv \<in> set names then snd nv # attribute_values names attrs
      else attribute_values names attrs)"
  by (cases nv) (simp add: attribute_values_def)

lemma entry_attribute_code:
  "snd (entry_attribute n v (lang, code)) =
     (if n = ''iso_639_1_code'' then Some v
      else if n \<in> set [''iso_639_2B_code'', ''iso_639_2T_code''] \<and> code = None then Some v
      else code)"
  by (simp add: entry_attribute_def)

lemma code_names_distinct:
  "''iso_639_1_code'' \<notin> set [''iso_639_2B_code'', ''iso_639_2T_code'']"
  by simp

lemma entry_attributes_code:
  "snd (entry_attributes attrs (lang, code)) =
     (case attribute_values [''iso_639_1_code''] attrs of
        [] \<Rightarrow> (case code of
                 Some c \<Rightarrow> Some c
               | None \<Rightarrow> (case attribute_values [''iso_639_2B_code'', ''iso_639_2T_code''] attrs of
                            [] \<Rightarrow> None | v # _ \<Rightarrow> Some v))
      | v # vs \<Rightarrow> Some (last (v # vs)))"
proof (induction attrs arbitrary: lang code)
  case Nil
  show ?case by (simp add: attribute_values_Nil split: option.splits)
next
  case (Cons nv attrs)
  obtain n v where nv: "nv = (n, v)" by (cases nv)
  let ?one = "[''iso_639_1_code'']"
  let ?two = "[''iso_639_2B_code'', ''iso_639_2T_code'']"
  obtain lang' where step: "entry_attribute n v (lang, code) =
      (lang', snd (entry_attribute n v (lang, code)))"
    by (cases "entry_attribute n v (lang, code)") simp
  have IH: "snd (entry_attributes (nv # attrs) (lang, code)) =
     (case attribute_values ?one attrs of
        [] \<Rightarrow> (case snd (entry_attribute n v (lang, code)) of
                 Some c \<Rightarrow> Some c
               | None \<Rightarrow> (case attribute_values ?two attrs of
                            [] \<Rightarrow> None | v # _ \<Rightarrow> Some v))
      | v # vs \<Rightarrow> Some (last (v # vs)))"
    unfolding nv using Cons.IH [of lang' "snd (entry_attribute n v (lang, code))"] step
    by simp
  consider (one) "n \<in> set ?one" | (two) "n \<in> set ?two" | (other) "n \<notin> set ?one" "n \<notin> set ?two"
    by blast
  then show ?case
  proof cases
    case one
    then have n: "n = ''iso_639_1_code''" by simp
    have c: "snd (entry_attribute n v (lang, code)) = Some v"
      unfolding entry_attribute_code using n by simp
    have a1: "attribute_values ?one (nv # attrs) = v # attribute_values ?one attrs"
      unfolding attribute_values_Cons nv using one by simp
    show ?thesis
      unfolding IH c a1 by (simp split: list.splits)
  next
    case two
    then have n1: "n \<noteq> ''iso_639_1_code''" by auto
    have c: "snd (entry_attribute n v (lang, code)) = (case code of None \<Rightarrow> Some v | Some c \<Rightarrow> Some c)"
      unfolding entry_attribute_code using n1 two by (simp split: option.splits)
    have a1: "attribute_values ?one (nv # attrs) = attribute_values ?one attrs"
      unfolding attribute_values_Cons nv using n1 by simp
    have a2: "attribute_values ?two (nv # attrs) = v # attribute_values ?two attrs"
      unfolding attribute_values_Cons nv using two by simp
    show ?thesis
      unfolding IH c a1 a2 by (simp split: list.splits option.splits)
  next
    case other
    then have n1: "n \<noteq> ''iso_639_1_code''" by simp
    have c: "snd (entry_attribute n v (lang, code)) = code"
      unfolding entry_attribute_code using n1 other(2) by simp
    have a1: "attribute_values ?one (nv # attrs) = attribute_values ?one attrs"
      unfolding attribute_values_Cons nv using other(1) by simp
    have a2: "attribute_values ?two (nv # attrs) = attribute_values ?two attrs"
      unfolding attribute_values_Cons nv using other(2) by simp
    show ?thesis
      unfolding IH c a1 a2 by simp
  qed
qed

text \<open>
  Claim C2, as amended.  For every entry element, the language code is the value of the
  attribute \<open>iso_639_1_code\<close> whenever the entry has one (the last one, should there
  be several), whatever other code attributes it carries; only when it has none is the
  code the value of the first attribute named \<open>iso_639_2B_code\<close> or
  \<open>iso_639_2T_code\<close>, in document order; and the entry has no code when it has none
  of the three.
\<close>

theorem entry_code_priority:
  "entry_code attrs =
     (case attribute_values [''iso_639_1_code''] attrs of
        [] \<Rightarrow> (case attribute_values [''iso_639_2B_code'', ''iso_639_2T_code''] attrs of
                 [] \<Rightarrow> None | v # _ \<Rightarrow> Some v)
      | v # vs \<Rightarrow> Some (last (v # vs)))"
  by (simp add: entry_code_def entry_attributes_code split: list.splits)

text \<open>
  The claim as it was stated fails on the entry for Chinese of the ISO 639 file: the
  fallback from \<open>iso_639_2B_code\<close> would choose \<open>chi\<close>, the parser chooses
  \<open>zh\<close>.
\<close>

theorem entry_code_priority_counterexample:
  "entry_code [(''iso_639_2B_code'', ''chi''), (''iso_639_2T_code'', ''zho''),
     (''iso_639_1_code'', ''zh''), (''name'', ''Chinese'')] = Some ''zh'' \<and>
   priority_fallback_code [(''iso_639_2B_code'', ''chi''), (''iso_639_2T_code'', ''zho''),
     (''iso_639_1_code'', ''zh''), (''name'', ''Chinese'')] = Some ''chi''"
  by code_simp

section \<open>Properties of the parser: adding languages\<close>

lemma localize_process:
  "env_LANGUAGE (snd (localize_in_itself C lang code proc)) = env_LANGUAGE proc \<and>
   LANGUAGE_writes (snd (localize_in_itself C lang code proc)) = LANGUAGE_writes proc + 2 \<and>
   warnings (snd (localize_in_itself C lang code proc)) = warnings proc"
  by (cases "env_LANGUAGE proc")
    (simp_all add: localize_in_itself_def Let_def setlocale_LC_ALL_def g_setenv_LANGUAGE_def
      g_unsetenv_LANGUAGE_def)

lemma self_l10n_add:
  assumes "l \<noteq> []" and "c \<noteq> []"
  shows "gimp_language_store_self_l10n C (Some l) (Some c) (st, proc) =
     (let r = (if c \<noteq> ''en'' then localize_in_itself C l c proc else (l, proc))
      in (st @ [(case strchr (fst r) CHR '';'' of
                   Some semicolon \<Rightarrow> take semicolon (fst r)
                 | None \<Rightarrow> fst r, c)], snd r))"
proof (cases "c = ''en''")
  case True
  with assms show ?thesis
    by (simp add: gimp_language_store_self_l10n_def gimp_language_store_add_def
        split: option.splits)
next
  case False
  obtain l' p' where r: "localize_in_itself C l c proc = (l', p')"
    by (cases "localize_in_itself C l c proc")
  from False assms show ?thesis
    by (simp add: gimp_language_store_self_l10n_def gimp_language_store_add_def r
        split: option.splits)
qed

lemma self_l10n_skip:
  assumes "lang = None \<or> code = None \<or> lang = Some [] \<or> code = Some []"
  shows "gimp_language_store_self_l10n C lang code sp = sp"
  using assms
  by (cases sp; cases lang; cases code)
    (auto simp add: gimp_language_store_self_l10n_def)


lemma self_l10n_process:
  "env_LANGUAGE (snd (gimp_language_store_self_l10n C lang code (st, proc))) = env_LANGUAGE proc \<and>
   warnings (snd (gimp_language_store_self_l10n C lang code (st, proc))) = warnings proc \<and>
   (LANGUAGE_writes (snd (gimp_language_store_self_l10n C lang code (st, proc))) =
      LANGUAGE_writes proc \<or>
    LANGUAGE_writes (snd (gimp_language_store_self_l10n C lang code (st, proc))) =
      LANGUAGE_writes proc + 2) \<and>
   (code = Some ''en'' \<longrightarrow> snd (gimp_language_store_self_l10n C lang code (st, proc)) = proc)"
proof (cases "lang = None \<or> code = None \<or> lang = Some [] \<or> code = Some []")
  case True
  then show ?thesis
    by (simp only: self_l10n_skip) simp
next
  case False
  then obtain l c where lc: "lang = Some l" "code = Some c" "l \<noteq> []" "c \<noteq> []"
    by (cases lang; cases code) auto
  show ?thesis
    unfolding lc(1,2) self_l10n_add [OF lc(3,4)] Let_def
    using localize_process [of C l c proc] by simp
qed

lemma self_l10n_adds:
  "l \<noteq> [] \<Longrightarrow> c \<noteq> [] \<Longrightarrow>
     map snd (fst (gimp_language_store_self_l10n C (Some l) (Some c) sp)) = map snd (fst sp) @ [c]"
  by (cases sp) (simp add: self_l10n_add Let_def)

lemma parser_entry_zh_codes:
  assumes "entry_code attrs = Some ''zh''"
  shows "map snd (store (fst (iso_codes_parser_entry C attrs (parser, proc)))) =
     map snd (store parser) @ [''zh_CN'', ''zh_TW'', ''zh_HK'']"
proof -
  obtain lang where la: "entry_attributes attrs (None, None) = (lang, Some ''zh'')"
    using assms by (cases "entry_attributes attrs (None, None)") (simp add: entry_code_def)
  let ?s1 = "gimp_language_store_self_l10n C (Some ''Chinese'') (Some ''zh_CN'') (store parser, proc)"
  let ?s2 = "gimp_language_store_self_l10n C (Some ''Chinese'') (Some ''zh_TW'') ?s1"
  let ?s3 = "gimp_language_store_self_l10n C (Some ''Chinese'') (Some ''zh_HK'') ?s2"
  have "map snd (fst ?s3) = map snd (store parser) @ [''zh_CN'', ''zh_TW'', ''zh_HK'']"
    by (simp add: self_l10n_adds)
  moreover have "iso_codes_parser_entry C attrs (parser, proc) =
      (parser\<lparr>store := fst ?s3\<rparr>, snd ?s3)"
    unfolding iso_codes_parser_entry_def la by (simp add: case_prod_beta)
  ultimately show ?thesis by simp
qed


lemma parser_entry_zh_new:
  assumes "entry_code attrs = Some ''zh''"
  shows "map snd (drop (length (store parser))
           (store (fst (iso_codes_parser_entry C attrs (parser, proc))))) =
         [''zh_CN'', ''zh_TW'', ''zh_HK'']"
proof -
  have "map snd (drop (length (store parser))
          (store (fst (iso_codes_parser_entry C attrs (parser, proc))))) =
      drop (length (map snd (store parser)))
        (map snd (store (fst (iso_codes_parser_entry C attrs (parser, proc)))))"
    by (simp add: drop_map)
  also have "\<dots> = [''zh_CN'', ''zh_TW'', ''zh_HK'']"
    unfolding parser_entry_zh_codes [OF assms] by (simp only: append_eq_conv_conj drop_append)
      simp
  finally show ?thesis .
qed

text \<open>
  Claim C3.  For every entry whose code is exactly \<open>zh\<close>, the parser emits exactly
  three language entries, with the codes \<open>zh_CN\<close>, \<open>zh_TW\<close> and \<open>zh_HK\<close> in
  this order, behind the entries the store had; none of the emitted entries has the code
  \<open>zh\<close>.
\<close>

theorem chinese_entry_variants:
  assumes "entry_code attrs = Some ''zh''"
  shows "map snd (store (fst (iso_codes_parser_entry C attrs (parser, proc)))) =
           map snd (store parser) @ [''zh_CN'', ''zh_TW'', ''zh_HK''] \<and>
         length (store (fst (iso_codes_parser_entry C attrs (parser, proc)))) =
           length (store parser) + 3 \<and>
         ''zh'' \<notin> set (map snd (drop (length (store parser))
           (store (fst (iso_codes_parser_entry C attrs (parser, proc))))))"
proof -
  have "length (map snd (store (fst (iso_codes_parser_entry C attrs (parser, proc))))) =
      length (map snd (store parser) @ [''zh_CN'', ''zh_TW'', ''zh_HK''])"
    by (simp only: parser_entry_zh_codes [OF assms])
  then have "length (store (fst (iso_codes_parser_entry C attrs (parser, proc)))) =
      length (store parser) + 3"
    by simp
  then show ?thesis
    using parser_entry_zh_codes [OF assms, of C parser proc]
    by (simp add: parser_entry_zh_new [OF assms])
qed

theorem chinese_entry_variants_witness:
  "entry_code chinese_entry = Some ''zh'' \<and>
   map snd (store (fst (iso_codes_parser_entry example_libc chinese_entry
      (new_parser [(''Breton'', ''br'')], example_process)))) =
     [''br'', ''zh_CN'', ''zh_TW'', ''zh_HK'']"
proof -
  have h: "entry_code chinese_entry = Some ''zh''"
    by code_simp
  have s: "map snd (store (new_parser [(''Breton'', ''br'')])) = [''br'']"
    by (simp add: new_parser_def)
  from chinese_entry_variants [OF h, of example_libc "new_parser [(''Breton'', ''br'')]"
      example_process]
  have "map snd (store (fst (iso_codes_parser_entry example_libc chinese_entry
      (new_parser [(''Breton'', ''br'')], example_process)))) =
     map snd (store (new_parser [(''Breton'', ''br'')])) @ [''zh_CN'', ''zh_TW'', ''zh_HK'']"
    by (rule conjunct1)
  with h s show ?thesis
    by simp
qed

text \<open>
  Claim C9.  For every call of \<open>gimp_language_store_self_l10n\<close>, the variable
  \<^verbatim>\<open>LANGUAGE\<close> has the same value after the call as before, set or unset; it is
  written either not at all or twice, once for the lookup and once to restore it; and
  for the code \<open>en\<close> the process is left as it was, nothing having been written.
\<close>

theorem self_l10n_restores_LANGUAGE:
  "env_LANGUAGE (snd (gimp_language_store_self_l10n C lang code (st, proc))) = env_LANGUAGE proc \<and>
   (LANGUAGE_writes (snd (gimp_language_store_self_l10n C lang code (st, proc))) =
      LANGUAGE_writes proc \<or>
    LANGUAGE_writes (snd (gimp_language_store_self_l10n C lang code (st, proc))) =
      LANGUAGE_writes proc + 2) \<and>
   (code = Some ''en'' \<longrightarrow> snd (gimp_language_store_self_l10n C lang code (st, proc)) = proc)"
  using self_l10n_process [of C lang code st proc] by blast

theorem self_l10n_restores_LANGUAGE_witness:
  "Some ''en'' = Some ''en'' \<and>
   snd (gimp_language_store_self_l10n example_libc (Some ''English'') (Some ''en'')
     ([], example_process)) = example_process \<and>
   env_LANGUAGE (snd (gimp_language_store_self_l10n example_libc (Some ''German'') (Some ''de'')
     ([], example_process))) = env_LANGUAGE example_process"
  using self_l10n_restores_LANGUAGE [of example_libc "Some ''English''" "Some ''en''" "[]"
      example_process]
    self_l10n_restores_LANGUAGE [of example_libc "Some ''German''" "Some ''de''" "[]"
      example_process]
  by blast

section \<open>Properties of the parser: the state machine\<close>

subsection \<open>The counter\<close>

lemma sint_gint_of_nat: "n < 2 ^ 31 \<Longrightarrow> sint (word_of_nat n :: gint) = int n"
  by (simp add: signed_of_nat signed_take_bit_int_eq_self)

lemma gint_positive: "n < 2 ^ 31 \<Longrightarrow> (0 <s (word_of_nat n :: gint)) \<longleftrightarrow> 0 < n"
  by (simp add: word_sless_alt sint_gint_of_nat)

lemma gint_zero: "n < 2 ^ 32 \<Longrightarrow> (word_of_nat n :: gint) = 0 \<longleftrightarrow> n = 0"
  by (auto simp add: word_of_nat_eq_0_iff dest: dvd_imp_le)

lemma gint_overflow: "\<not> (0 <s (word_of_nat 2147483648 :: gint))"
  by (simp add: word_sless_alt)

lemma gint_unat_bound: "unat (w :: gint) < 2 ^ 32"
  using unsigned_less [of w] by simp

lemma gint_unat_Suc:
  assumes "unat (w :: gint) < 2 ^ 31"
  shows "unat (w + 1) = Suc (unat w)"
proof (rule of_nat_inverse)
  show "word_of_nat (Suc (unat w)) = w + 1"
    by simp
  show "Suc (unat w) < 2 ^ LENGTH(32)"
    using assms by simp
qed

lemma gint_positive_unat:
  assumes "unat (w :: gint) < 2 ^ 31"
  shows "0 <s w \<longleftrightarrow> w \<noteq> 0"
proof -
  have "0 <s (word_of_nat (unat w) :: gint) \<longleftrightarrow> 0 < unat w"
    using assms by (rule gint_positive)
  then show ?thesis
    by (simp add: unat_gt_0)
qed

lemma gint_unat_pred: "(w :: gint) \<noteq> 0 \<Longrightarrow> unat (w - 1) = unat w - 1"
  by (rule unat_minus_one)


subsection \<open>Steps of the parser\<close>

lemma self_l10n_warnings:
  "warnings (snd (gimp_language_store_self_l10n C lang code sp)) = warnings (snd sp)"
  using self_l10n_process [of C lang code "fst sp" "snd sp"] by simp

lemma parser_entry_fields:
  "state (fst (iso_codes_parser_entry C attrs (parser, proc))) = state parser \<and>
   last_known_state (fst (iso_codes_parser_entry C attrs (parser, proc))) = last_known_state parser \<and>
   unknown_depth (fst (iso_codes_parser_entry C attrs (parser, proc))) = unknown_depth parser"
  by (simp add: iso_codes_parser_entry_def split: prod.splits)

lemma parser_entry_warnings:
  "warnings (snd (iso_codes_parser_entry C attrs (parser, proc))) = warnings proc"
proof -
  obtain lang code where la: "entry_attributes attrs (None, None) = (lang, code)"
    by (cases "entry_attributes attrs (None, None)")
  show ?thesis
  proof (cases "code = Some ''zh''")
    case True
    let ?s1 = "gimp_language_store_self_l10n C (Some ''Chinese'') (Some ''zh_CN'') (store parser, proc)"
    let ?s2 = "gimp_language_store_self_l10n C (Some ''Chinese'') (Some ''zh_TW'') ?s1"
    let ?s3 = "gimp_language_store_self_l10n C (Some ''Chinese'') (Some ''zh_HK'') ?s2"
    have "snd (iso_codes_parser_entry C attrs (parser, proc)) = snd ?s3"
      using True by (simp add: iso_codes_parser_entry_def la split: prod.splits)
    then show ?thesis by (simp add: self_l10n_warnings)
  next
    case False
    let ?s = "gimp_language_store_self_l10n C lang code (store parser, proc)"
    have "snd (iso_codes_parser_entry C attrs (parser, proc)) = snd ?s"
      using False by (simp add: iso_codes_parser_entry_def la split: prod.splits)
    then show ?thesis by (simp add: self_l10n_warnings)
  qed
qed

lemma parser_inv_entry:
  "parser_inv n (fst (iso_codes_parser_entry C attrs (parser, proc))) = parser_inv n parser"
  by (simp add: parser_inv_def height_def parser_entry_fields)

lemma known_zero_entry:
  "known_zero (fst (iso_codes_parser_entry C attrs (parser, proc))) = known_zero parser"
  by (simp add: known_zero_def parser_entry_fields)

lemma start_unknown_step:
  assumes "parser_inv n q" and "n < 2 ^ 31"
  shows "parser_inv (Suc n) (iso_codes_parser_start_unknown q)"
proof -
  from assms have b: "unat (unknown_depth q) < 2 ^ 31"
    by (simp add: parser_inv_def)
  have u: "unat (unknown_depth q + 1) = Suc (unat (unknown_depth q))"
    using b by (rule gint_unat_Suc)
  then have nz: "unknown_depth q + 1 \<noteq> 0"
    by (metis Zero_not_Suc unat_eq_0)
  show ?thesis
  proof (cases "unknown_depth q = 0")
    case True
    with assms(1) have "state q \<noteq> ISO_CODES_IN_UNKNOWN"
      by (simp add: parser_inv_def)
    with assms(1) True show ?thesis
      by (simp add: parser_inv_def height_def iso_codes_parser_start_unknown_def Let_def)
  next
    case False
    with assms(1) have "state q = ISO_CODES_IN_UNKNOWN"
      by (simp add: parser_inv_def)
    with assms(1) False u nz show ?thesis
      by (simp add: parser_inv_def height_def iso_codes_parser_start_unknown_def Let_def)
  qed
qed

lemma start_element_step:
  assumes "parser_inv n q" and "n < 2 ^ 31"
  shows "parser_inv (Suc n) (fst (iso_codes_parser_start_element C e a (q, proc))) \<and>
         warnings (snd (iso_codes_parser_start_element C e a (q, proc))) = warnings proc"
proof -
  note su = start_unknown_step [OF assms]
  have rec: "parser_inv (Suc n) (q\<lparr>state := st\<rparr>)"
    if "state q \<noteq> ISO_CODES_IN_UNKNOWN" "st \<noteq> ISO_CODES_IN_UNKNOWN" "level (state q) < level st" for st
    using that assms(1) by (auto simp add: parser_inv_def height_def)
  show ?thesis
  proof (cases "state q")
    case ISO_CODES_START
    with rec [of ISO_CODES_IN_ENTRIES] rec [of ISO_CODES_IN_ENTRY] su show ?thesis
      by (simp add: iso_codes_parser_start_element_def start_element_in_entries_def
          start_element_in_entry_def parser_inv_entry parser_entry_warnings)
  next
    case ISO_CODES_IN_ENTRIES
    with rec [of ISO_CODES_IN_ENTRY] su show ?thesis
      by (simp add: iso_codes_parser_start_element_def start_element_in_entries_def
          start_element_in_entry_def parser_inv_entry parser_entry_warnings)
  next
    case ISO_CODES_IN_ENTRY
    with su show ?thesis
      by (simp add: iso_codes_parser_start_element_def start_element_in_entry_def)
  next
    case ISO_CODES_IN_UNKNOWN
    with su show ?thesis
      by (simp add: iso_codes_parser_start_element_def start_element_in_entry_def)
  qed
qed

lemma end_unknown_step:
  assumes "parser_inv n q" and "0 < n" and "n < 2 ^ 31" and "state q = ISO_CODES_IN_UNKNOWN"
  shows "\<exists>q'. iso_codes_parser_end_unknown q = Inr q' \<and> parser_inv (n - 1) q'"
proof -
  from assms have b: "unat (unknown_depth q) < 2 ^ 31" and nz: "unknown_depth q \<noteq> 0"
    by (simp_all add: parser_inv_def)
  from b nz have pos: "0 <s unknown_depth q"
    by (simp add: gint_positive_unat)
  from nz have u: "unat (unknown_depth q - 1) = unat (unknown_depth q) - 1"
    by (rule gint_unat_pred)
  from nz have u0: "0 < unat (unknown_depth q)"
    by (simp add: unat_gt_0)
  show ?thesis
  proof (cases "unknown_depth q - 1 = 0")
    case True
    then have "unat (unknown_depth q) = 1"
      using u u0 by simp
    with assms True pos show ?thesis
      by (auto simp add: iso_codes_parser_end_unknown_def Let_def parser_inv_def height_def)
  next
    case False
    with assms pos u u0 show ?thesis
      by (auto simp add: iso_codes_parser_end_unknown_def Let_def parser_inv_def height_def)
  qed
qed

lemma end_element_step:
  assumes "parser_inv n q" and "0 < n" and "n < 2 ^ 31"
  shows "\<exists>q'. iso_codes_parser_end_element e (q, proc) = Inr (q', proc) \<and>
           parser_inv (n - 1) q'"
proof (cases "state q")
  case ISO_CODES_START
  with assms show ?thesis
    by (simp add: parser_inv_def height_def)
next
  case ISO_CODES_IN_ENTRIES
  with assms show ?thesis
    by (auto simp add: iso_codes_parser_end_element_def parser_inv_def height_def)
next
  case ISO_CODES_IN_ENTRY
  with assms show ?thesis
    by (auto simp add: iso_codes_parser_end_element_def parser_inv_def height_def)
next
  case ISO_CODES_IN_UNKNOWN
  from end_unknown_step [OF assms this] obtain q'
    where "iso_codes_parser_end_unknown q = Inr q'" "parser_inv (n - 1) q'" by blast
  with ISO_CODES_IN_UNKNOWN show ?thesis
    by (simp add: iso_codes_parser_end_element_def)
qed


subsection \<open>Runs of the parser\<close>

lemma max_open_ge: "n \<le> max_open n evs"
  by (induction n evs rule: max_open.induct) simp_all

lemma open_after_le_max_open: "open_after n evs \<le> max_open n evs"
proof (induction n evs rule: max_open.induct)
  case (1 n)
  show ?case by simp
next
  case (2 n e a evs)
  then show ?case by (simp add: le_max_iff_disj)
next
  case (3 n e evs)
  then show ?case by (simp add: le_max_iff_disj)
qed

lemma max_open_take: "max_open n (take k evs) \<le> max_open n evs"
proof (induction n evs arbitrary: k rule: max_open.induct)
  case (1 n)
  show ?case by simp
next
  case (2 n e a evs)
  show ?case
  proof (cases k)
    case 0
    then show ?thesis by simp
  next
    case (Suc j)
    with "2.IH" [of j] show ?thesis
      by (auto simp add: le_max_iff_disj)
  qed
next
  case (3 n e evs)
  show ?case
  proof (cases k)
    case 0
    then show ?thesis by simp
  next
    case (Suc j)
    with "3.IH" [of j] show ?thesis
      by (auto simp add: le_max_iff_disj)
  qed
qed

lemma closes_open_take: "closes_open n evs \<Longrightarrow> closes_open n (take k evs)"
proof (induction evs arbitrary: n k)
  case Nil
  then show ?case by simp
next
  case (Cons ev evs)
  then show ?case
    by (cases k; cases ev) auto
qed

lemma parse_events_balanced:
  "parser_inv n q \<Longrightarrow> closes_open n evs \<Longrightarrow> max_open n evs < 2 ^ 31 \<Longrightarrow>
     \<exists>q' proc'. parse_events C evs (q, proc) = Inr (q', proc') \<and>
        parser_inv (open_after n evs) q' \<and> warnings proc' = warnings proc"
proof (induction evs arbitrary: q proc n)
  case Nil
  then show ?case by simp
next
  case (Cons ev evs)
  from Cons.prems(3) max_open_ge [of n "ev # evs"] have n: "n < 2 ^ 31"
    by simp
  show ?case
  proof (cases ev)
    case (Start_element e a)
    let ?pp = "iso_codes_parser_start_element C e a (q, proc)"
    from start_element_step [OF Cons.prems(1) n, of C e a proc]
    have i: "parser_inv (Suc n) (fst ?pp)" and w: "warnings (snd ?pp) = warnings proc"
      by simp_all
    from Cons.prems(2) have c: "closes_open (Suc n) evs"
      by (simp add: Start_element)
    from Cons.prems(3) have m: "max_open (Suc n) evs < 2 ^ 31"
      by (simp add: Start_element)
    from Cons.IH [OF i c m, of "snd ?pp"] w show ?thesis
      by (simp add: Start_element)
  next
    case (End_element e)
    from Cons.prems(2) have p: "0 < n" and c: "closes_open (n - 1) evs"
      by (simp_all add: End_element)
    from Cons.prems(3) have m: "max_open (n - 1) evs < 2 ^ 31"
      by (simp add: End_element)
    from end_element_step [OF Cons.prems(1) p n, of e proc]
    obtain q' where s: "iso_codes_parser_end_element e (q, proc) = Inr (q', proc)"
      and i: "parser_inv (n - 1) q'" by blast
    from Cons.IH [OF i c m, of proc] show ?thesis
      by (simp add: End_element s)
  qed
qed

lemma new_parser_inv: "parser_inv 0 (new_parser st)"
  by (simp add: parser_inv_def height_def new_parser_def)

lemma balanced_run_inv:
  assumes "closes_open 0 evs" and "max_open 0 evs < 2 ^ 31"
  shows "\<exists>q proc'. parse_events C (take k evs) (new_parser st, proc) = Inr (q, proc') \<and>
           (state q = ISO_CODES_IN_UNKNOWN \<longleftrightarrow> 0 <s unknown_depth q) \<and>
           warnings proc' = warnings proc"
proof -
  from assms(1) have c: "closes_open 0 (take k evs)"
    by (rule closes_open_take)
  from assms(2) max_open_take [of 0 k evs] have m: "max_open 0 (take k evs) < 2 ^ 31"
    by simp
  from parse_events_balanced [OF new_parser_inv c m, where C = C and proc = proc and st1 = st]
  obtain q proc' where r: "parse_events C (take k evs) (new_parser st, proc) = Inr (q, proc')"
    and i: "parser_inv (open_after 0 (take k evs)) q" and w: "warnings proc' = warnings proc"
    by blast
  from m open_after_le_max_open [of 0 "take k evs"] have "open_after 0 (take k evs) < 2 ^ 31"
    by simp
  with i have "unat (unknown_depth q) < 2 ^ 31"
    by (simp add: parser_inv_def)
  then have "0 <s unknown_depth q \<longleftrightarrow> unknown_depth q \<noteq> 0"
    by (rule gint_positive_unat)
  with i have "state q = ISO_CODES_IN_UNKNOWN \<longleftrightarrow> 0 <s unknown_depth q"
    by (simp add: parser_inv_def)
  with r w show ?thesis
    by blast
qed

subsection \<open>Known states\<close>

lemma start_element_known_zero:
  assumes "known_zero q"
  shows "known_zero (fst (iso_codes_parser_start_element C e a (q, proc)))"
  using assms
  by (cases "state q")
    (simp_all add: iso_codes_parser_start_element_def start_element_in_entries_def
      start_element_in_entry_def iso_codes_parser_start_unknown_def Let_def
      parser_entry_fields known_zero_def)

lemma end_element_known_zero:
  assumes "iso_codes_parser_end_element e (q, proc) = Inr (q', proc')" and "known_zero q"
  shows "known_zero q'"
  using assms
  by (cases "state q")
    (auto simp add: iso_codes_parser_end_element_def iso_codes_parser_end_unknown_def
      Let_def known_zero_def split: if_splits)

lemma parse_events_known_zero:
  "parse_events C evs (q, proc) = Inr (q', proc') \<Longrightarrow> known_zero q \<Longrightarrow> known_zero q'"
proof (induction evs arbitrary: q proc)
  case Nil
  then show ?case by simp
next
  case (Cons ev evs)
  show ?case
  proof (cases ev)
    case (Start_element e a)
    let ?pp = "iso_codes_parser_start_element C e a (q, proc)"
    from Cons.prems(1) have "parse_events C evs (fst ?pp, snd ?pp) = Inr (q', proc')"
      by (simp add: Start_element)
    moreover have "known_zero (fst ?pp)"
      using Cons.prems(2) by (rule start_element_known_zero)
    ultimately show ?thesis
      by (rule Cons.IH)
  next
    case (End_element e)
    from Cons.prems(1) obtain q1 proc1
      where s: "iso_codes_parser_end_element e (q, proc) = Inr (q1, proc1)"
        and r: "parse_events C evs (q1, proc1) = Inr (q', proc')"
      by (auto simp add: End_element split: sum.splits)
    from s Cons.prems(2) have "known_zero q1"
      by (rule end_element_known_zero)
    with r show ?thesis
      by (rule Cons.IH)
  qed
qed

lemma new_parser_known_zero: "known_zero (new_parser st)"
  by (simp add: known_zero_def new_parser_def)


subsection \<open>Inside an unknown element\<close>

lemma parse_events_append:
  "parse_events C (xs @ ys) pp =
     (case parse_events C xs pp of Inl a \<Rightarrow> Inl a | Inr pp' \<Rightarrow> parse_events C ys pp')"
  by (induction xs arbitrary: pp) (simp_all split: sum.splits)

lemma unknown_start:
  assumes "state q = ISO_CODES_IN_UNKNOWN" and "unknown_depth q = word_of_nat (Suc n)"
    and "Suc n < 2 ^ 32"
  shows "iso_codes_parser_start_element C e a (q, proc) =
     (q\<lparr>unknown_depth := word_of_nat (Suc (Suc n))\<rparr>, proc)"
proof -
  from assms(3) have "(word_of_nat (Suc n) :: gint) \<noteq> 0"
    by (simp add: gint_zero del: of_nat_Suc)
  with assms(2) have nz: "unknown_depth q \<noteq> 0"
    by simp
  have "q\<lparr>state := ISO_CODES_IN_UNKNOWN, unknown_depth := unknown_depth q + 1\<rparr> =
      q\<lparr>unknown_depth := word_of_nat (Suc (Suc n))\<rparr>"
    using assms(1,2) by simp
  with nz assms(1) show ?thesis
    by (simp add: iso_codes_parser_start_element_def start_element_in_entry_def
        iso_codes_parser_start_unknown_def Let_def del: of_nat_Suc)
qed

lemma unknown_end:
  assumes "state q = ISO_CODES_IN_UNKNOWN" and "unknown_depth q = word_of_nat (Suc (Suc n))"
    and "Suc (Suc n) < 2 ^ 31"
  shows "iso_codes_parser_end_element e (q, proc) =
     Inr (q\<lparr>unknown_depth := word_of_nat (Suc n)\<rparr>, proc)"
proof -
  from assms(3) have "0 <s (word_of_nat (Suc (Suc n)) :: gint)"
    by (simp add: gint_positive del: of_nat_Suc)
  with assms(2) have pos: "0 <s unknown_depth q"
    by simp
  from assms(2) have d: "unknown_depth q - 1 = word_of_nat (Suc n)"
    by simp
  from assms(3) have "Suc n < 2 ^ 32"
    by simp
  then have nz: "(word_of_nat (Suc n) :: gint) \<noteq> 0"
    by (simp add: gint_zero del: of_nat_Suc)
  from pos assms(1) nz show ?thesis
    by (simp add: iso_codes_parser_end_element_def iso_codes_parser_end_unknown_def Let_def d
        del: of_nat_Suc)
qed

lemma unknown_run:
  "state q = ISO_CODES_IN_UNKNOWN \<Longrightarrow> unknown_depth q = word_of_nat (Suc n) \<Longrightarrow>
   closes_open n evs \<Longrightarrow> Suc (max_open n evs) < 2 ^ 31 \<Longrightarrow>
     parse_events C evs (q, proc) =
       Inr (q\<lparr>unknown_depth := word_of_nat (Suc (open_after n evs))\<rparr>, proc)"
proof (induction evs arbitrary: q n)
  case Nil
  then show ?case by simp
next
  case (Cons ev evs)
  from Cons.prems(4) max_open_ge [of n "ev # evs"] have n: "Suc n < 2 ^ 31"
    by simp
  show ?case
  proof (cases ev)
    case (Start_element e a)
    let ?q = "q\<lparr>unknown_depth := word_of_nat (Suc (Suc n))\<rparr>"
    have step: "iso_codes_parser_start_element C e a (q, proc) = (?q, proc)"
      using Cons.prems(1,2) n by (intro unknown_start) simp_all
    from Cons.prems(3) have c: "closes_open (Suc n) evs"
      by (simp add: Start_element)
    from Cons.prems(4) have m: "Suc (max_open (Suc n) evs) < 2 ^ 31"
      by (simp add: Start_element)
    have "parse_events C evs (?q, proc) =
        Inr (?q\<lparr>unknown_depth := word_of_nat (Suc (open_after (Suc n) evs))\<rparr>, proc)"
      using Cons.prems(1) by (intro Cons.IH [OF _ _ c m]) simp_all
    then show ?thesis
      by (simp add: Start_element step del: of_nat_Suc)
  next
    case (End_element e)
    from Cons.prems(3) have p: "0 < n" and c: "closes_open (n - 1) evs"
      by (simp_all add: End_element)
    from p obtain j where j: "n = Suc j"
      by (cases n) simp_all
    from Cons.prems(4) have m: "Suc (max_open j evs) < 2 ^ 31"
      by (simp add: End_element j)
    let ?q = "q\<lparr>unknown_depth := word_of_nat (Suc j)\<rparr>"
    have step: "iso_codes_parser_end_element e (q, proc) = Inr (?q, proc)"
      using Cons.prems(1,2) n unfolding j by (intro unknown_end) simp_all
    have "parse_events C evs (?q, proc) =
        Inr (?q\<lparr>unknown_depth := word_of_nat (Suc (open_after j evs))\<rparr>, proc)"
      using Cons.prems(1) c unfolding j by (intro Cons.IH [OF _ _ _ m]) simp_all
    then show ?thesis
      by (simp add: End_element step j del: of_nat_Suc)
  qed
qed

lemma unrecognized_start:
  assumes "unrecognized (state q) e" and "unknown_depth q = 0"
  shows "iso_codes_parser_start_element C e a (q, proc) =
     (q\<lparr>last_known_state := state q, state := ISO_CODES_IN_UNKNOWN, unknown_depth := 1\<rparr>, proc)"
  using assms
  by (cases "state q")
    (simp_all add: unrecognized_def iso_codes_parser_start_element_def
      start_element_in_entries_def start_element_in_entry_def
      iso_codes_parser_start_unknown_def Let_def)

lemma skip_unknown_run:
  assumes reach: "parse_events C before (new_parser st, proc0) = Inr (q, proc)"
    and known: "state q \<noteq> ISO_CODES_IN_UNKNOWN"
    and unrec: "unrecognized (state q) e"
    and nest: "closes_open 0 evs"
    and bound: "Suc (max_open 0 evs) < 2 ^ 31"
  shows "(\<exists>q'. parse_events C (Start_element e a # evs) (q, proc) = Inr (q', proc) \<and>
            state q' = ISO_CODES_IN_UNKNOWN \<and> last_known_state q' = state q \<and>
            sint (unknown_depth q') = 1 + int (open_after 0 evs) \<and> store q' = store q) \<and>
         (open_after 0 evs = 0 \<longrightarrow>
           (\<exists>q''. parse_events C (Start_element e a # evs @ [End_element e']) (q, proc) =
                Inr (q'', proc) \<and>
              state q'' = state q \<and> unknown_depth q'' = 0 \<and> store q'' = store q))"
proof -
  from reach new_parser_known_zero have "known_zero q"
    by (rule parse_events_known_zero)
  with known have d0: "unknown_depth q = 0"
    by (simp add: known_zero_def)
  let ?q1 = "q\<lparr>last_known_state := state q, state := ISO_CODES_IN_UNKNOWN, unknown_depth := 1\<rparr>"
  let ?q2 = "?q1\<lparr>unknown_depth := word_of_nat (Suc (open_after 0 evs))\<rparr>"
  have s1: "iso_codes_parser_start_element C e a (q, proc) = (?q1, proc)"
    using unrec d0 by (rule unrecognized_start)
  have s2: "parse_events C evs (?q1, proc) = Inr (?q2, proc)"
    by (rule unknown_run [OF _ _ nest bound]) simp_all
  have run: "parse_events C (Start_element e a # evs) (q, proc) = Inr (?q2, proc)"
    by (simp add: s1 s2 del: of_nat_Suc)
  from bound open_after_le_max_open [of 0 evs] have "Suc (open_after 0 evs) < 2 ^ 31"
    by simp
  then have "sint (word_of_nat (Suc (open_after 0 evs)) :: gint) = int (Suc (open_after 0 evs))"
    by (rule sint_gint_of_nat)
  then have depth: "sint (unknown_depth ?q2) = 1 + int (open_after 0 evs)"
    by simp
  have close: "iso_codes_parser_end_element e' (?q2, proc) =
      Inr (q\<lparr>last_known_state := state q\<rparr>, proc)" if "open_after 0 evs = 0"
    using that d0
    by (simp add: iso_codes_parser_end_element_def iso_codes_parser_end_unknown_def Let_def
        word_sless_alt)
  have "parse_events C (Start_element e a # evs @ [End_element e']) (q, proc) =
      Inr (q\<lparr>last_known_state := state q\<rparr>, proc)" if "open_after 0 evs = 0"
    using run close [OF that] parse_events_append [of C "Start_element e a # evs" "[End_element e']"]
    by (simp del: of_nat_Suc)
  with run depth d0 show ?thesis
    by (simp del: of_nat_Suc)
qed


subsection \<open>Beyond the range of the counter\<close>

lemma starts_run:
  "state q = ISO_CODES_IN_UNKNOWN \<Longrightarrow> unknown_depth q = word_of_nat (Suc n) \<Longrightarrow>
   Suc n + k < 2 ^ 32 \<Longrightarrow>
     parse_events C (replicate k (Start_element e a) @ evs) (q, proc) =
       parse_events C evs (q\<lparr>unknown_depth := word_of_nat (Suc n + k)\<rparr>, proc)"
proof (induction k arbitrary: q n)
  case 0
  have "q\<lparr>unknown_depth := word_of_nat (Suc n + 0)\<rparr> = q\<lparr>unknown_depth := unknown_depth q\<rparr>"
    using "0.prems"(2) by simp
  then show ?case by simp
next
  case (Suc k)
  let ?q = "q\<lparr>unknown_depth := word_of_nat (Suc (Suc n))\<rparr>"
  have step: "iso_codes_parser_start_element C e a (q, proc) = (?q, proc)"
    using Suc.prems by (intro unknown_start) simp_all
  have "parse_events C (replicate k (Start_element e a) @ evs) (?q, proc) =
      parse_events C evs (?q\<lparr>unknown_depth := word_of_nat (Suc (Suc n) + k)\<rparr>, proc)"
    using Suc.prems by (intro Suc.IH) simp_all
  then show ?case
    by (simp add: step del: of_nat_Suc of_nat_add)
qed

lemma end_beyond_range:
  assumes "state q = ISO_CODES_IN_UNKNOWN" and "\<not> 0 <s unknown_depth q"
  shows "iso_codes_parser_end_element e (q, proc) = Inl Assertion_failed"
  using assms
  by (simp add: iso_codes_parser_end_element_def iso_codes_parser_end_unknown_def)

lemma abort_first:
  assumes "0 < k" and "deliver C ev pp = Inl a"
  shows "parse_events C (replicate k ev @ evs) pp = Inl a"
  using assms by (cases k) simp_all

lemma closes_open_starts:
  "closes_open n (replicate k (Start_element e a) @ evs) = closes_open (n + k) evs"
  by (induction k arbitrary: n) simp_all

lemma closes_open_ends:
  "closes_open n (replicate k (End_element e) @ evs) = (k \<le> n \<and> closes_open (n - k) evs)"
proof (induction k arbitrary: n)
  case 0
  show ?case by simp
next
  case (Suc k)
  show ?case
  proof (cases n)
    case 0
    then show ?thesis by simp
  next
    case (Suc m)
    then show ?thesis by (simp add: Suc.IH)
  qed
qed

lemma open_after_starts:
  "open_after n (replicate k (Start_element e a) @ evs) = open_after (n + k) evs"
  by (induction k arbitrary: n) simp_all

lemma open_after_ends:
  "open_after n (replicate k (End_element e) @ evs) = open_after (n - k) evs"
  by (induction k arbitrary: n) simp_all

lemma deep_counter: "\<not> 0 <s (word_of_nat (Suc 0 + 2147483647) :: gint)"
  by (simp add: word_sless_alt)

lemma deeply_nested_aborts:
  assumes "state q = ISO_CODES_IN_UNKNOWN" and "unknown_depth q = 1"
  shows "parse_events C (replicate 2147483647 (Start_element e a) @
           replicate 2147483647 (End_element e') @ evs) (q, proc) = Inl Assertion_failed"
proof -
  let ?q = "q\<lparr>unknown_depth := word_of_nat (Suc 0 + 2147483647)\<rparr>"
  have "parse_events C (replicate 2147483647 (Start_element e a) @
           replicate 2147483647 (End_element e') @ evs) (q, proc) =
      parse_events C (replicate 2147483647 (End_element e') @ evs) (?q, proc)"
    using assms by (intro starts_run) simp_all
  also have "\<dots> = Inl Assertion_failed"
  proof (rule abort_first)
    show "0 < (2147483647 :: nat)" by simp
    have "iso_codes_parser_end_element e' (?q, proc) = Inl Assertion_failed"
      using assms(1) deep_counter by (intro end_beyond_range) simp_all
    then show "deliver C (End_element e') (?q, proc) = Inl Assertion_failed"
      by simp
  qed
  finally show ?thesis .
qed


section \<open>The claims on the state machine\<close>

text \<open>
  Claim C8, as amended.  Whatever events the parser has received, when it is in a known
  state and gets a start tag that is unrecognized there, it enters the unknown state
  with the known state saved and the counter at 1.  Through any events that follow, do
  not close that element and never leave more than 2147483646 elements open inside it
  (so that the 32-bit counter stays in its range), it stays in the unknown state, the
  counter being 1 plus the number of elements opened and not yet closed inside, and the
  store and the process are not touched.  Once all of these are closed, the next end
  tag, the one that matches the unrecognized start tag, brings the parser back to the
  saved known state with the counter at 0.
\<close>

theorem unknown_element_skipped:
  assumes "parse_events C before (new_parser st, proc0) = Inr (q, proc)"
    and "state q \<noteq> ISO_CODES_IN_UNKNOWN"
    and "unrecognized (state q) e"
    and "closes_open 0 evs"
    and "Suc (max_open 0 evs) < 2 ^ 31"
  shows "(\<exists>q'. parse_events C (Start_element e a # evs) (q, proc) = Inr (q', proc) \<and>
            state q' = ISO_CODES_IN_UNKNOWN \<and> last_known_state q' = state q \<and>
            sint (unknown_depth q') = 1 + int (open_after 0 evs) \<and> store q' = store q) \<and>
         (open_after 0 evs = 0 \<longrightarrow>
           (\<exists>q''. parse_events C (Start_element e a # evs @ [End_element e']) (q, proc) =
                Inr (q'', proc) \<and>
              state q'' = state q \<and> unknown_depth q'' = 0 \<and> store q'' = store q))"
  using assms by (rule skip_unknown_run)

theorem unknown_element_skipped_witness:
  "parse_events example_libc entry_opened (new_parser [], example_process) =
     Inr (parser_in_entry, process_in_entry) \<and>
   state parser_in_entry \<noteq> ISO_CODES_IN_UNKNOWN \<and>
   unrecognized (state parser_in_entry) ''note'' \<and>
   closes_open 0 nested_unknown \<and> Suc (max_open 0 nested_unknown) < 2 ^ 31 \<and>
   open_after 0 nested_unknown = 0 \<and>
   (\<exists>q'. parse_events example_libc (Start_element ''note'' [] # nested_unknown)
        (parser_in_entry, process_in_entry) = Inr (q', process_in_entry) \<and>
      state q' = ISO_CODES_IN_UNKNOWN \<and> last_known_state q' = ISO_CODES_IN_ENTRY \<and>
      sint (unknown_depth q') = 1) \<and>
   (\<exists>q''. parse_events example_libc
        (Start_element ''note'' [] # nested_unknown @ [End_element ''note''])
        (parser_in_entry, process_in_entry) = Inr (q'', process_in_entry) \<and>
      state q'' = ISO_CODES_IN_ENTRY \<and> unknown_depth q'' = 0)"
proof -
  have h1: "parse_events example_libc entry_opened (new_parser [], example_process) =
     Inr (parser_in_entry, process_in_entry)"
    by code_simp
  have h2: "state parser_in_entry \<noteq> ISO_CODES_IN_UNKNOWN"
    by (simp add: parser_in_entry_def)
  have h3: "unrecognized (state parser_in_entry) ''note''"
    by (simp add: parser_in_entry_def unrecognized_def)
  have h4: "closes_open 0 nested_unknown"
    by (simp add: nested_unknown_def)
  have h5: "open_after 0 nested_unknown = 0"
    by (simp add: nested_unknown_def)
  have h6: "Suc (max_open 0 nested_unknown) < 2 ^ 31"
    by (simp add: nested_unknown_def)
  have st: "state parser_in_entry = ISO_CODES_IN_ENTRY"
    by (simp add: parser_in_entry_def)
  from unknown_element_skipped [OF h1 h2 h3 h4 h6, of "[]" "''note''"] h5
  have c1: "\<exists>q'. parse_events example_libc (Start_element ''note'' [] # nested_unknown)
        (parser_in_entry, process_in_entry) = Inr (q', process_in_entry) \<and>
      state q' = ISO_CODES_IN_UNKNOWN \<and> last_known_state q' = ISO_CODES_IN_ENTRY \<and>
      sint (unknown_depth q') = 1"
    and c2: "\<exists>q''. parse_events example_libc
        (Start_element ''note'' [] # nested_unknown @ [End_element ''note''])
        (parser_in_entry, process_in_entry) = Inr (q'', process_in_entry) \<and>
      state q'' = ISO_CODES_IN_ENTRY \<and> unknown_depth q'' = 0"
    unfolding st by auto
  from h1 h2 h3 h4 h5 h6 c1 c2 show ?thesis
    by blast
qed

text \<open>
  The claim as it was stated, for every sequence of events, fails where the counter
  leaves the range of a \<^verbatim>\<open>gint\<close>: with 2147483647 elements nested in one another
  inside the unrecognized element the counter has wrapped around to a negative number,
  and at the first end tag the assertion of \<open>iso_codes_parser_end_unknown\<close> fails;
  the parser does not come back to the known state.
\<close>

theorem unknown_element_skipped_counterexample:
  "parse_events example_libc entry_opened (new_parser [], example_process) =
     Inr (parser_in_entry, process_in_entry) \<and>
   state parser_in_entry \<noteq> ISO_CODES_IN_UNKNOWN \<and>
   unrecognized (state parser_in_entry) ''note'' \<and>
   closes_open 0 deeply_nested \<and> open_after 0 deeply_nested = 0 \<and>
   parse_events example_libc (Start_element ''note'' [] # deeply_nested @ [End_element ''note''])
     (parser_in_entry, process_in_entry) = Inl Assertion_failed"
proof -
  have h1: "parse_events example_libc entry_opened (new_parser [], example_process) =
     Inr (parser_in_entry, process_in_entry)"
    by code_simp
  have h2: "state parser_in_entry \<noteq> ISO_CODES_IN_UNKNOWN"
    by (simp add: parser_in_entry_def)
  have h3: "unrecognized (state parser_in_entry) ''note''"
    by (simp add: parser_in_entry_def unrecognized_def)
  have h4: "closes_open 0 deeply_nested"
    unfolding deeply_nested_def closes_open_starts
    using closes_open_ends [of _ _ _ "[]"] by simp
  have h5: "open_after 0 deeply_nested = 0"
    unfolding deeply_nested_def open_after_starts
    using open_after_ends [of _ _ _ "[]"] by simp
  let ?q1 = "parser_in_entry\<lparr>last_known_state := state parser_in_entry,
      state := ISO_CODES_IN_UNKNOWN, unknown_depth := 1\<rparr>"
  have s1: "iso_codes_parser_start_element example_libc ''note'' [] (parser_in_entry, process_in_entry) =
      (?q1, process_in_entry)"
    using h3 by (rule unrecognized_start) (simp add: parser_in_entry_def)
  have "parse_events example_libc (deeply_nested @ [End_element ''note'']) (?q1, process_in_entry) =
      Inl Assertion_failed"
    unfolding deeply_nested_def append_assoc by (rule deeply_nested_aborts) simp_all
  with s1 have "parse_events example_libc
      (Start_element ''note'' [] # deeply_nested @ [End_element ''note''])
      (parser_in_entry, process_in_entry) = Inl Assertion_failed"
    by simp
  with h1 h2 h3 h4 h5 show ?thesis
    by blast
qed


text \<open>
  Claim C10, as amended.  For every sequence of events in which each end tag closes an
  element that is open and fewer than 2147483648 elements are ever open at once,
  delivered to a new parser, and after every one of its events: no assertion has failed,
  so that \<open>unknown_depth\<close> was positive whenever an end tag came in the unknown
  state; the state is the unknown one exactly when \<open>unknown_depth\<close> is positive; and
  no warning has been logged, that is, no end tag has come in the start state.
\<close>

theorem balanced_events_invariant:
  assumes "closes_open 0 evs" and "max_open 0 evs < 2 ^ 31"
  shows "\<exists>q proc'. parse_events C (take k evs) (new_parser st, proc) = Inr (q, proc') \<and>
           (state q = ISO_CODES_IN_UNKNOWN \<longleftrightarrow> 0 <s unknown_depth q) \<and>
           warnings proc' = warnings proc"
  using assms by (rule balanced_run_inv)

theorem balanced_events_invariant_witness:
  "closes_open 0 whole_document \<and> max_open 0 whole_document < 2 ^ 31 \<and>
   (\<exists>q proc'. parse_events example_libc (take 5 whole_document) (new_parser [], example_process) =
        Inr (q, proc') \<and>
      (state q = ISO_CODES_IN_UNKNOWN \<longleftrightarrow> 0 <s unknown_depth q) \<and>
      warnings proc' = warnings example_process)"
proof -
  have h1: "closes_open 0 whole_document"
    by code_simp
  have h2: "max_open 0 whole_document < 2 ^ 31"
    by (simp add: whole_document_def entry_opened_def nested_unknown_def)
  from balanced_events_invariant [OF h1 h2, where C = example_libc and k = 5 and st = "[]"
      and proc = example_process] h1 h2
  show ?thesis
    by blast
qed

text \<open>
  The claim as it was stated, for every such sequence, fails where the counter leaves
  the range of a \<^verbatim>\<open>gint\<close>: after 2147483648 start tags of elements nested in one
  another the counter is negative in the unknown state, and the end tag that follows,
  which closes an open element, makes the assertion fail.
\<close>

theorem balanced_events_invariant_counterexample:
  "closes_open 0 deep_document \<and>
   parse_events example_libc deep_document (new_parser [], example_process) =
     Inl Assertion_failed"
proof -
  have h: "closes_open 0 deep_document"
    unfolding deep_document_def by (simp add: closes_open_starts)
  let ?q1 = "(new_parser [])\<lparr>last_known_state := state (new_parser []),
      state := ISO_CODES_IN_UNKNOWN, unknown_depth := 1\<rparr>"
  have s1: "iso_codes_parser_start_element example_libc ''x'' [] (new_parser [], example_process) =
      (?q1, example_process)"
    by (rule unrecognized_start) (simp_all add: new_parser_def unrecognized_def)
  have "parse_events example_libc
      (replicate 2147483647 (Start_element ''x'' []) @ replicate 1 (End_element ''x'') @ [])
      (?q1, example_process) = Inl Assertion_failed"
  proof -
    let ?q = "?q1\<lparr>unknown_depth := word_of_nat (Suc 0 + 2147483647)\<rparr>"
    have "parse_events example_libc
        (replicate 2147483647 (Start_element ''x'' []) @ replicate 1 (End_element ''x'') @ [])
        (?q1, example_process) =
      parse_events example_libc (replicate 1 (End_element ''x'') @ []) (?q, example_process)"
      by (intro starts_run) simp_all
    also have "\<dots> = Inl Assertion_failed"
    proof (rule abort_first)
      show "0 < (1 :: nat)" by simp
      have "iso_codes_parser_end_element ''x'' (?q, example_process) = Inl Assertion_failed"
        using deep_counter by (intro end_beyond_range) simp_all
      then show "deliver example_libc (End_element ''x'') (?q, example_process) = Inl Assertion_failed"
        by simp
    qed
    finally show ?thesis .
  qed
  then have "parse_events example_libc
      (replicate 2147483647 (Start_element ''x'' []) @ [End_element ''x''])
      (?q1, example_process) = Inl Assertion_failed"
    by simp
  with s1 have "parse_events example_libc deep_document (new_parser [], example_process) =
     Inl Assertion_failed"
    unfolding deep_document_def by simp
  with h show ?thesis
    by blast
qed


end
